theory Spec2Isabelle
  imports Complex_Main "HOL-Library.Word"
begin

section \<open>Shared data model\<close>

text \<open>
  Both converters read a whole file into a Python \<^verbatim>\<open>bytes\<close> object. A byte is an
  8-bit word, a buffer a list of bytes. Lengths, offsets, cube sizes and indices are
  natural numbers (Python computes them from \<^verbatim>\<open>len\<close> and unsigned \<^verbatim>\<open>struct\<close> fields, so
  they are never negative); the one difference that can go negative,
  \<^verbatim>\<open>remaining = file_size - data_offset\<close>, is an \<open>int\<close>.

  A colour component is a Python float obtained as \<^verbatim>\<open>byte / 255.0\<close>,
  \<^verbatim>\<open>byte * (1.0 / 255.0)\<close> or \<^verbatim>\<open>k / (lut_size - 1)\<close>. The model keeps the exact quotient
  as a rational number; the binary rounding of the float (below \<open>10\<^sup>-\<^sup>1\<^sup>5\<close>) is not
  modelled.
\<close>

type_synonym byte = "8 word"
type_synonym bytes = "byte list"
type_synonym triple = "rat \<times> rat \<times> rat"

text \<open>Every exception the modelled functions raise, one constructor per raise site.\<close>

datatype error =
    MissingHeader       \<comment> \<open>\<^verbatim>\<open>ValueError("missing .MS-LUT header")\<close>\<close>
  | AxisTruncated       \<comment> \<open>\<^verbatim>\<open>ValueError("axis block truncated")\<close>\<close>
  | PayloadTruncated    \<comment> \<open>\<^verbatim>\<open>ValueError("payload truncated")\<close>\<close>
  | NotDivisibleBy4     \<comment> \<open>\<^verbatim>\<open>ValueError("byte length not divisible by 4 for RGBA data")\<close>\<close>
  | NotPerfectCube      \<comment> \<open>\<^verbatim>\<open>ValueError("byte length is not a perfect cube of RGBA texels")\<close>\<close>
  | UnsupportedOrder    \<comment> \<open>\<^verbatim>\<open>ValueError("unsupported order: ...")\<close>\<close>
  | IndexError          \<comment> \<open>an index past the end of a buffer\<close>
  | StructError         \<comment> \<open>\<^verbatim>\<open>struct.error\<close>: \<^verbatim>\<open>struct.unpack\<close> on a slice that is too short\<close>
  | ZeroDivisionError   \<comment> \<open>float division by zero\<close>

text \<open>The 8-byte signature \<^verbatim>\<open>b".MS-LUT "\<close>.\<close>

definition MS_MAGIC :: bytes where
  "MS_MAGIC = [0x2E, 0x4D, 0x53, 0x2D, 0x4C, 0x55, 0x54, 0x20]"

text \<open>\<^verbatim>\<open>data.startswith(prefix)\<close>.\<close>

definition startswith :: "bytes \<Rightarrow> bytes \<Rightarrow> bool" where
  "startswith data pre = (take (length pre) data = pre)"

text \<open>\<^verbatim>\<open>data[i:j]\<close> for \<open>0 \<le> i \<le> j\<close>: Python clips a slice at the end of the buffer.\<close>

definition slice :: "bytes \<Rightarrow> nat \<Rightarrow> nat \<Rightarrow> bytes" where
  "slice data i j = take (j - i) (drop i data)"

text \<open>The value of a little-endian unsigned integer.\<close>

definition le_uint :: "bytes \<Rightarrow> nat" where
  "le_uint bs = foldr (\<lambda>b acc. unat b + 256 * acc) bs 0"

text \<open>\<^verbatim>\<open>payload[idx] / 255\<close>, as an exact quotient.\<close>

definition byte_val :: "byte \<Rightarrow> rat" where
  "byte_val b = of_nat (unat b) / 255"

section \<open>convert\_bin\_to\_cube.py\<close>

subsection \<open>read\_ms\_lut\<close>

text \<open>
  \<^verbatim>\<open>struct.unpack_from("<12I", data, 0)[k]\<close>: the k-th little-endian 32-bit field. The
  caller has checked \<open>48 \<le> length data\<close>, so the unpack itself cannot fail.
\<close>

definition header_field :: "bytes \<Rightarrow> nat \<Rightarrow> nat" where
  "header_field data k = le_uint (slice data (4 * k) (4 * k + 4))"

definition read_ms_lut :: "bytes \<Rightarrow> error + (nat \<times> string \<times> bytes)" where
  "read_ms_lut data =
     (if length data < 48 \<or> \<not> startswith data MS_MAGIC then Inl MissingHeader
      else
        let size = header_field data 3;
            order_flag = header_field data 6;
            axis_offset = header_field data 8;
            data_offset = header_field data 10;
            expected_axis_end = axis_offset + size * 4;
            expected_data_len = size * size * size * 3
        in
          if length data < expected_axis_end then Inl AxisTruncated
          else if length data < data_offset + expected_data_len then Inl PayloadTruncated
          else Inr (size,
                    (if order_flag \<noteq> 0 then ''rgb'' else ''bgr''),
                    slice data data_offset (data_offset + expected_data_len)))"

subsection \<open>read\_raw\_rgba\<close>

text \<open>
  \<^verbatim>\<open>round(texel_count ** (1.0 / 3.0))\<close> is the integer nearest to the cube root of
  \<open>texel_count\<close>. The model computes that integer exactly: \<open>cbrt_floor_from n 0\<close> is the
  largest \<open>s\<close> with \<open>s\<^sup>3 \<le> n\<close>, and the result is \<open>s + 1\<close> when the cube root lies above
  \<open>s + 1/2\<close>, that is when \<open>(2 s + 1)\<^sup>3 < 8 n\<close>. The cube root of an integer is never
  exactly \<open>s + 1/2\<close>, so Python's rounding of ties to even plays no part. The error of
  the floating-point power is far below \<open>1/2\<close> for every length a buffer can have, so
  the float rounds to \<open>s\<close> whenever \<open>n = s\<^sup>3\<close>; for other \<open>n\<close> no integer passes the check
  that follows.
\<close>

function cbrt_floor_from :: "nat \<Rightarrow> nat \<Rightarrow> nat" where
  "cbrt_floor_from n s = (if (s + 1) ^ 3 \<le> n then cbrt_floor_from n (s + 1) else s)"
  by pat_completeness auto
termination
proof (relation "measure (\<lambda>(n, s). n - s)")
  show "wf (measure (\<lambda>(n, s). n - s))" by simp
next
  fix n s :: nat
  assume le: "(s + 1) ^ 3 \<le> n"
  have "s + 1 \<le> (s + 1) ^ 3" by (rule self_le_power) simp_all
  with le have "s < n" by linarith
  then show "((n, s + 1), (n, s)) \<in> measure (\<lambda>(n, s). n - s)" by simp
qed

declare cbrt_floor_from.simps [simp del]

definition round_cbrt :: "nat \<Rightarrow> nat" where
  "round_cbrt n = (let s = cbrt_floor_from n 0 in if (2 * s + 1) ^ 3 < 8 * n then s + 1 else s)"

definition read_raw_rgba :: "bytes \<Rightarrow> error + (nat \<times> string \<times> bytes)" where
  "read_raw_rgba data =
     (if length data mod 4 \<noteq> 0 then Inl NotDivisibleBy4
      else
        let texel_count = length data div 4;
            size = round_cbrt texel_count
        in
          if size * size * size \<noteq> texel_count then Inl NotPerfectCube
          else Inr (size, ''rgba'', data))"

subsection \<open>iter\_values\<close>

text \<open>
  One texel: \<^verbatim>\<open>(payload[idx] * inv_255, payload[idx + 1] * inv_255, payload[idx + 2] * inv_255)\<close>.
  Reading past the end of the memoryview raises \<^verbatim>\<open>IndexError\<close>.
\<close>

definition texel :: "bytes \<Rightarrow> nat \<Rightarrow> error + triple" where
  "texel payload idx =
     (if idx + 2 < length payload
      then Inr (byte_val (payload ! idx), byte_val (payload ! (idx + 1)), byte_val (payload ! (idx + 2)))
      else Inl IndexError)"

text \<open>Consuming a generator: the first element that raises ends the iteration.\<close>

fun collect :: "(error + 'a) list \<Rightarrow> error + 'a list" where
  "collect [] = Inr []"
| "collect (x # xs) =
     (case x of
        Inl e \<Rightarrow> Inl e
      | Inr v \<Rightarrow> (case collect xs of Inl e \<Rightarrow> Inl e | Inr vs \<Rightarrow> Inr (v # vs)))"

text \<open>
  The three nested \<^verbatim>\<open>for\<close> loops (blue outer, green middle, red inner), with the
  index formula of each branch. \<open>order\<close> is the Python string, \<open>sz\<close> the
  parameter \<^verbatim>\<open>size\<close>.
\<close>

definition iter_values :: "nat \<Rightarrow> bytes \<Rightarrow> string \<Rightarrow> error + triple list" where
  "iter_values sz payload order =
     (let n2 = sz * sz in
      if order = ''rgb'' then
        collect (concat (map (\<lambda>b. concat (map (\<lambda>g.
          let base = (g * sz + b * n2) * 3 in
          map (\<lambda>r. texel payload (base + r * 3)) [0..<sz]) [0..<sz])) [0..<sz]))
      else if order = ''bgr'' then
        collect (concat (map (\<lambda>b. concat (map (\<lambda>g.
          let base = (b + g * sz) * 3 in
          map (\<lambda>r. texel payload (base + r * n2 * 3)) [0..<sz]) [0..<sz])) [0..<sz]))
      else if order = ''rgba'' then
        collect (concat (map (\<lambda>b. concat (map (\<lambda>g.
          let base = (g * sz + b * n2) * 4 in
          map (\<lambda>r. texel payload (base + r * 4)) [0..<sz]) [0..<sz])) [0..<sz]))
      else Inl UnsupportedOrder)"

text \<open>
  The index \<^verbatim>\<open>idx\<close> at which each branch reads, from the loop variables: the value of
  \<^verbatim>\<open>base + r * 3\<close>, \<^verbatim>\<open>base + r * n2 * 3\<close> and \<^verbatim>\<open>base + r * 4\<close> with the branch's \<^verbatim>\<open>base\<close>.
\<close>

definition texel_index :: "string \<Rightarrow> nat \<Rightarrow> nat \<Rightarrow> nat \<Rightarrow> nat \<Rightarrow> nat" where
  "texel_index order n r g b =
     (if order = ''rgb'' then (g * n + b * (n * n)) * 3 + r * 3
      else if order = ''bgr'' then (b + g * n) * 3 + r * (n * n) * 3
      else (g * n + b * (n * n)) * 4 + r * 4)"

section \<open>Text formatting\<close>

text \<open>\<^verbatim>\<open>str(n)\<close> for a non-negative integer.\<close>

definition digit_char :: "nat \<Rightarrow> char" where
  "digit_char d = ''0123456789'' ! (d mod 10)"

function str_nat :: "nat \<Rightarrow> string" where
  "str_nat n = (if n < 10 then [digit_char n] else str_nat (n div 10) @ [digit_char (n mod 10)])"
  by pat_completeness auto
termination
  by (relation "measure id") auto

declare str_nat.simps [simp del]

text \<open>
  \<^verbatim>\<open>f"{x:.6f}"\<close>: the value rounded to six decimals (ties to even), the integer part
  in decimal, a point, and the six decimals with leading zeros kept.
\<close>

definition round_half_even :: "rat \<Rightarrow> nat" where
  "round_half_even q =
     (let f = nat \<lfloor>q\<rfloor>; d = q - of_nat f in
      if d < 1 / 2 then f
      else if 1 / 2 < d then f + 1
      else if even f then f else f + 1)"

definition frac6 :: "nat \<Rightarrow> string" where
  "frac6 m = map (\<lambda>k. digit_char (m div 10 ^ k)) [5, 4, 3, 2, 1, 0]"

definition fmt6 :: "rat \<Rightarrow> string" where
  "fmt6 q =
     (let m = round_half_even (\<bar>q\<bar> * 1000000) in
      (if q < 0 then ''-'' else []) @ str_nat (m div 1000000) @ ''.'' @ frac6 (m mod 1000000))"

text \<open>The double-quote character of the \<^verbatim>\<open>TITLE\<close> line.\<close>

definition dquote :: string where
  "dquote = [CHR 0x22]"

text \<open>One data line \<^verbatim>\<open>f"{r:.6f} {g:.6f} {b:.6f}\n"\<close>, without the newline.\<close>

definition data_line :: "triple \<Rightarrow> string" where
  "data_line t = (case t of (r, g, b) \<Rightarrow> fmt6 r @ '' '' @ fmt6 g @ '' '' @ fmt6 b)"

subsection \<open>convert\_file\<close>

text \<open>
  The result is the list of lines written to the destination (each without its
  newline), the cube size and the source type. The destination path and the directory
  creation are left out, and the file name is taken to be ASCII (the file is opened with
  that encoding). Every exception of \<open>read_ms_lut\<close> is a \<^verbatim>\<open>ValueError\<close>, so each
  one sends the buffer to \<open>read_raw_rgba\<close>; an exception of that function or of the
  generator leaves \<open>convert_file\<close>.
\<close>

definition convert_file :: "string \<Rightarrow> bytes \<Rightarrow> error + (string list \<times> nat \<times> string)" where
  "convert_file name data =
     (case (case read_ms_lut data of
              Inr (sz, order, payload) \<Rightarrow> Inr (sz, order, payload, ''ms-lut'')
            | Inl _ \<Rightarrow>
                (case read_raw_rgba data of
                   Inr (sz, order, payload) \<Rightarrow> Inr (sz, order, payload, ''rgba'')
                 | Inl e \<Rightarrow> Inl e)) of
        Inl e \<Rightarrow> Inl e
      | Inr (sz, order, payload, source_type) \<Rightarrow>
          (case iter_values sz payload order of
             Inl e \<Rightarrow> Inl e
           | Inr vals \<Rightarrow>
               Inr ([''TITLE '' @ dquote @ name @ dquote,
                     ''LUT_3D_SIZE '' @ str_nat sz,
                     ''DOMAIN_MIN 0 0 0'',
                     ''DOMAIN_MAX 1 1 1''] @ map data_line vals,
                    sz, source_type)))"

section \<open>convert\_oppo\_luts.py\<close>

subsection \<open>parse\_ms\_lut\_header\<close>

text \<open>The dictionary the parser returns; its five keys are always present.\<close>

record header =
  version :: nat
  lut_size :: nat
  file_size :: nat
  data_offset :: nat
  channels :: nat

text \<open>
  \<^verbatim>\<open>struct.unpack('<I', data[i:i+4])[0]\<close>: the slice is clipped at the end of the buffer,
  and \<^verbatim>\<open>struct.unpack\<close> raises \<^verbatim>\<open>struct.error\<close> unless it holds exactly four bytes.
\<close>

definition unpack_u32 :: "bytes \<Rightarrow> nat \<Rightarrow> error + nat" where
  "unpack_u32 data i =
     (let s = slice data i (i + 4) in if length s = 4 then Inr (le_uint s) else Inl StructError)"

text \<open>
  The first loop, \<^verbatim>\<open>for size in [32, 33, 17, 16, 21, 25, 20]\<close>: the first size whose
  3- or 4-channel byte count equals \<open>remaining\<close>, with the channel count.
\<close>

fun exact_loop :: "int \<Rightarrow> nat list \<Rightarrow> (nat \<times> nat) option" where
  "exact_loop remaining [] = None"
| "exact_loop remaining (sz # rest) =
     (let expected_rgb = int (sz ^ 3 * 3);
          expected_rgba = int (sz ^ 3 * 4)
      in
        if remaining = expected_rgb \<or> remaining = expected_rgba
        then Some (sz, if remaining = expected_rgb then 3 else 4)
        else exact_loop remaining rest)"

text \<open>
  The second loop, \<^verbatim>\<open>for size in [20, 17, 21, 25]: for ch in [3, 4]\<close>, with
  \<^verbatim>\<open>abs(remaining - expected) <= 4\<close>.
\<close>

fun tolerance_channels :: "int \<Rightarrow> nat \<Rightarrow> nat list \<Rightarrow> nat option" where
  "tolerance_channels remaining sz [] = None"
| "tolerance_channels remaining sz (ch # chs) =
     (let expected = int (sz ^ 3 * ch)
      in if \<bar>remaining - expected\<bar> \<le> 4 then Some ch else tolerance_channels remaining sz chs)"

fun tolerance_loop :: "int \<Rightarrow> nat list \<Rightarrow> (nat \<times> nat) option" where
  "tolerance_loop remaining [] = None"
| "tolerance_loop remaining (sz # rest) =
     (case tolerance_channels remaining sz [3, 4] of
        Some ch \<Rightarrow> Some (sz, ch)
      | None \<Rightarrow> tolerance_loop remaining rest)"

text \<open>The \<^verbatim>\<open>if\<close>/\<^verbatim>\<open>elif\<close> chain on the file size.\<close>

definition fallback_size :: "nat \<Rightarrow> nat" where
  "fallback_size fsize =
     (if fsize \<le> 14900 then 17
      else if fsize \<le> 17000 then 16
      else if fsize \<le> 28000 then 21
      else if fsize \<le> 100000 then 32
      else if fsize \<le> 135000 then 32
      else 33)"

text \<open>
  The data offset: \<^verbatim>\<open>0xB0\<close> unless the buffer has 48 bytes and the 64-bit field at
  \<^verbatim>\<open>0x28\<close> is positive and below the length. (The field at \<^verbatim>\<open>0x20\<close> is unpacked too and
  not used; with 48 bytes present that unpack cannot fail.)
\<close>

definition header_data_offset :: "bytes \<Rightarrow> nat" where
  "header_data_offset data =
     (if 0x30 \<le> length data then
        let data_offset_field = le_uint (slice data 0x28 0x30)
        in if 0 < data_offset_field \<and> data_offset_field < length data
           then data_offset_field else 0xB0
      else 0xB0)"

text \<open>The two candidate lists, in the order the loops visit them.\<close>

definition exact_sizes :: "nat list" where
  "exact_sizes = [32, 33, 17, 16, 21, 25, 20]"

definition tolerance_sizes :: "nat list" where
  "tolerance_sizes = [20, 17, 21, 25]"

text \<open>
  The three \<^verbatim>\<open>return\<close> statements build the same dictionary and differ in
  \<^verbatim>\<open>lut_size\<close> and \<^verbatim>\<open>channels\<close> only. \<open>infer_size_channels\<close> is that pair: from the
  first loop if it returns, else from the second loop if it returns, else the
  file-size fallback with 3 channels.
\<close>

definition infer_size_channels :: "int \<Rightarrow> nat \<Rightarrow> nat \<times> nat" where
  "infer_size_channels remaining fsize =
     (case exact_loop remaining exact_sizes of
        Some p \<Rightarrow> p
      | None \<Rightarrow>
          (case tolerance_loop remaining tolerance_sizes of
             Some p \<Rightarrow> p
           | None \<Rightarrow> (fallback_size fsize, 3)))"

text \<open>
  The result is \<open>Inr None\<close> for Python's \<^verbatim>\<open>None\<close> (no magic), \<open>Inl StructError\<close> when an
  unpack raises, and \<open>Inr (Some h)\<close> for a dictionary.
\<close>

definition parse_ms_lut_header :: "bytes \<Rightarrow> error + header option" where
  "parse_ms_lut_header data =
     (if \<not> startswith data MS_MAGIC then Inr None
      else
        case unpack_u32 data 8 of
          Inl e \<Rightarrow> Inl e
        | Inr ver \<Rightarrow>
            (case unpack_u32 data 12 of
               Inl e \<Rightarrow> Inl e
             | Inr lut_info \<Rightarrow>
                 let offs = header_data_offset data;
                     fsize = length data;
                     remaining = int fsize - int offs;
                     (sz, ch) = infer_size_channels remaining fsize
                 in Inr (Some \<lparr>version = ver, lut_size = sz, file_size = fsize,
                                data_offset = offs, channels = ch\<rparr>)))"

subsection \<open>extract\_byte\_lut and extract\_lut\_data\<close>

text \<open>
  Both functions run the same loop: \<^verbatim>\<open>for i in range(num_entries)\<close>, leaving at the first
  \<open>i\<close> with \<^verbatim>\<open>offset + 3 > len(data)\<close>, and appending
  \<^verbatim>\<open>(data[offset] / 255.0, data[offset + 1] / 255.0, data[offset + 2] / 255.0)\<close> otherwise.
  \<open>extract_loop\<close> is that loop from index \<open>i\<close> on.
\<close>

function extract_loop :: "bytes \<Rightarrow> nat \<Rightarrow> nat \<Rightarrow> nat \<Rightarrow> triple list" where
  "extract_loop buf chans num_entries i =
     (if i < num_entries then
        let offset = i * chans in
        if length buf < offset + 3 then []
        else (byte_val (buf ! offset), byte_val (buf ! (offset + 1)), byte_val (buf ! (offset + 2)))
             # extract_loop buf chans num_entries (i + 1)
      else [])"
  by pat_completeness auto
termination
  by (relation "measure (\<lambda>(buf, chans, num_entries, i). num_entries - i)") auto

declare extract_loop.simps [simp del]

definition extract_byte_lut :: "bytes \<Rightarrow> nat \<Rightarrow> nat \<Rightarrow> triple list" where
  "extract_byte_lut buf lsize chans = extract_loop buf chans (lsize ^ 3) 0"

definition extract_lut_data :: "bytes \<Rightarrow> header \<Rightarrow> triple list" where
  "extract_lut_data buf h =
     (let lut_data = drop (data_offset h) buf
      in extract_loop lut_data (channels h) (lut_size h ^ 3) 0)"

subsection \<open>The repair step of convert\_bin\_to\_cube\<close>

text \<open>
  The \<^verbatim>\<open>while len(entries) < expected\<close> loop. It runs only when
  \<open>length entries < lsize\<^sup>3\<close>, so \<open>lsize\<close> is positive there, the two integer divisions
  have a non-zero divisor and \<open>lsize - 1\<close> is the Python difference; the float division
  by \<^verbatim>\<open>lut_size - 1\<close> raises when \<open>lsize = 1\<close>.
\<close>

definition identity_entry :: "nat \<Rightarrow> nat \<Rightarrow> triple" where
  "identity_entry lsize idx =
     (let b = idx div (lsize * lsize);
          g = (idx div lsize) mod lsize;
          r = idx mod lsize
      in (of_nat r / of_nat (lsize - 1), of_nat g / of_nat (lsize - 1), of_nat b / of_nat (lsize - 1)))"

function pad_loop :: "triple list \<Rightarrow> nat \<Rightarrow> error + triple list" where
  "pad_loop entries lsize =
     (if length entries < lsize ^ 3 then
        let idx = length entries in
        if lsize - 1 = 0 then Inl ZeroDivisionError
        else pad_loop (entries @ [identity_entry lsize idx]) lsize
      else Inr entries)"
  by pat_completeness auto
termination
  by (relation "measure (\<lambda>(entries, lsize). lsize ^ 3 - length entries)") auto

declare pad_loop.simps [simp del]

definition repair :: "triple list \<Rightarrow> nat \<Rightarrow> error + triple list" where
  "repair entries lsize =
     (let expected = lsize ^ 3 in
      if expected < length entries then Inr (take expected entries)
      else if length entries < expected then pad_loop entries lsize
      else Inr entries)"

subsection \<open>write\_cube\_file\<close>

text \<open>The lines written, each without its newline; the fifth line is empty.\<close>

definition write_cube_file :: "triple list \<Rightarrow> nat \<Rightarrow> string \<Rightarrow> string list" where
  "write_cube_file entries lsize title =
     [''TITLE '' @ dquote @ title @ dquote,
      ''LUT_3D_SIZE '' @ str_nat lsize,
      ''DOMAIN_MIN 0.0 0.0 0.0'',
      ''DOMAIN_MAX 1.0 1.0 1.0'',
      []] @ map data_line entries"

subsection \<open>convert\_bin\_to\_cube\<close>

text \<open>\<^verbatim>\<open>bytes.isascii()\<close> and \<^verbatim>\<open>bytes.decode('ascii', errors='ignore')\<close>.\<close>

definition isascii :: "bytes \<Rightarrow> bool" where
  "isascii bs = list_all (\<lambda>b. b < 128) bs"

definition decode_ascii_ignore :: "bytes \<Rightarrow> string" where
  "decode_ascii_ignore bs = map (\<lambda>b. char_of (unat b)) (filter (\<lambda>b. b < 128) bs)"

text \<open>\<^verbatim>\<open>pat in s\<close> for strings.\<close>

fun contains :: "'a list \<Rightarrow> 'a list \<Rightarrow> bool" where
  "contains pat [] = (pat = [])"
| "contains pat (c # cs) = (take (length pat) (c # cs) = pat \<or> contains pat cs)"

text \<open>The size and channel guesses for a buffer without the magic.\<close>

definition raw_lut_size :: "nat \<Rightarrow> nat" where
  "raw_lut_size fsize =
     (if fsize = 131072 then 32
      else if fsize = 98304 then 32
      else if fsize = 107991 then 33
      else if fsize = 16384 then 16
      else 17)"

definition raw_channels :: "nat \<Rightarrow> nat" where
  "raw_channels fsize = (if fsize mod 4 \<noteq> 0 then 3 else 4)"

text \<open>
  What one call leaves behind: nothing (\<^verbatim>\<open>(False, None, None)\<close>), a byte-for-byte copy of
  the input, or a text file given by its lines. The genre and the output path of the
  returned tuple depend on the file name only and are left out. Any exception inside the
  function is caught by its \<^verbatim>\<open>except Exception\<close> and gives \<open>Failed\<close>.
  The test \<^verbatim>\<open>len(entries) < lut_size ** 3 * 0.9\<close> is taken over the rationals.
\<close>

datatype outcome = Failed | Copied bytes | Written "string list"

definition convert_bin_to_cube :: "string \<Rightarrow> bytes \<Rightarrow> outcome" where
  "convert_bin_to_cube stem buf =
     (if isascii (slice buf 0 20) \<and>
         (let text_start = decode_ascii_ignore (slice buf 0 500)
          in contains ''LUT_3D_SIZE'' text_start \<or> contains ''TITLE'' text_start)
      then Copied buf
      else
        case parse_ms_lut_header buf of
          Inl e \<Rightarrow> Failed
        | Inr hdr \<Rightarrow>
            let (lsize, entries) =
                  (case hdr of
                     None \<Rightarrow>
                       (let fsize = length buf;
                            lsize = raw_lut_size fsize
                        in (lsize, extract_byte_lut buf lsize (raw_channels fsize)))
                   | Some h \<Rightarrow> (lut_size h, extract_lut_data buf h))
            in
              if entries = [] \<or> (of_nat (length entries) :: rat) < of_nat (lsize ^ 3) * (9 / 10)
              then Failed
              else
                (case repair entries lsize of
                   Inl e \<Rightarrow> Failed
                 | Inr entries' \<Rightarrow> Written (write_cube_file entries' lsize stem)))"

section \<open>The tolerance tier as the specification words it\<close>

text \<open>
  The specification's tolerance tier repeats the exact-candidate test, that is the
  ranked list \<open>exact_sizes\<close> with 3 and 4 channels, allowing a difference of up to 4
  bytes. This definition follows the specification, not the source; it is compared
  with the source's loop below.
\<close>

definition spec_tolerance_tier :: "int \<Rightarrow> (nat \<times> nat) option" where
  "spec_tolerance_tier remaining = tolerance_loop remaining exact_sizes"

section \<open>Auxiliary definitions for the statements\<close>

text \<open>The ten decimal digit characters.\<close>

definition decimal_digits :: "char set" where
  "decimal_digits = set ''0123456789''"

text \<open>The four header lines \<open>convert_file\<close> writes before the data lines.\<close>

definition cube_header :: "string \<Rightarrow> nat \<Rightarrow> string list" where
  "cube_header name sz =
     [''TITLE '' @ dquote @ name @ dquote, ''LUT_3D_SIZE '' @ str_nat sz,
      ''DOMAIN_MIN 0 0 0'', ''DOMAIN_MAX 1 1 1'']"



section \<open>Properties of the raw-volume reader\<close>

lemma cbrt_floor_from_spec:
  "s0 ^ 3 \<le> n \<Longrightarrow> cbrt_floor_from n s0 ^ 3 \<le> n \<and> n < (cbrt_floor_from n s0 + 1) ^ 3"
proof (induction n s0 rule: cbrt_floor_from.induct)
  case (1 n s)
  show ?case
  proof (cases "(s + 1) ^ 3 \<le> n")
    case True
    with "1.IH" show ?thesis by (simp add: cbrt_floor_from.simps [of n s])
  next
    case False
    with "1.prems" show ?thesis by (simp add: cbrt_floor_from.simps [of n s])
  qed
qed

lemma cbrt_floor_unique:
  assumes "s ^ 3 \<le> n" and "n < (s + 1) ^ 3"
  shows "cbrt_floor_from n 0 = s"
proof -
  let ?r = "cbrt_floor_from n 0"
  have spec: "?r ^ 3 \<le> n \<and> n < (?r + 1) ^ 3"
    by (rule cbrt_floor_from_spec) simp
  with assms have "?r ^ 3 < (s + 1) ^ 3" and "s ^ 3 < (?r + 1) ^ 3"
    by linarith+
  then have "?r < s + 1" and "s < ?r + 1"
    by (auto dest: power_less_imp_less_base)
  then show ?thesis by simp
qed

lemma round_cbrt_cube: "round_cbrt (t ^ 3) = t"
proof -
  have floor: "cbrt_floor_from (t ^ 3) 0 = t"
    by (rule cbrt_floor_unique) (simp_all add: power_strict_mono)
  have "(2 * t) ^ 3 \<le> (2 * t + 1) ^ 3" by (rule power_mono) simp_all
  then have "\<not> (2 * t + 1) ^ 3 < 8 * t ^ 3" by (simp add: power_mult_distrib)
  then show ?thesis by (simp add: round_cbrt_def floor Let_def)
qed

lemma round_cbrt_check: "round_cbrt n * round_cbrt n * round_cbrt n = n \<longleftrightarrow> (\<exists>s. s ^ 3 = n)"
proof
  assume "round_cbrt n * round_cbrt n * round_cbrt n = n"
  then have "round_cbrt n ^ 3 = n" by (simp add: power3_eq_cube)
  then show "\<exists>s. s ^ 3 = n" ..
next
  assume "\<exists>s. s ^ 3 = n"
  then obtain s where n: "n = s ^ 3" by auto
  then have "round_cbrt n = s" by (simp add: round_cbrt_cube)
  with n show "round_cbrt n * round_cbrt n * round_cbrt n = n"
    by (simp add: power3_eq_cube)
qed

text \<open>
  C8. \<open>read_raw_rgba\<close> raises exactly when the byte length is not a multiple of the
  4-byte texel stride or the texel count \<open>length div 4\<close> is not a perfect cube; when it
  returns, the size it returns has the texel count as its cube, the order is
  \<open>''rgba''\<close> and the payload is the whole buffer.
\<close>

theorem read_raw_rgba_fails_iff:
  "((\<exists>e. read_raw_rgba data = Inl e) \<longleftrightarrow>
      (length data mod 4 \<noteq> 0 \<or> \<not> (\<exists>s. s ^ 3 = length data div 4))) \<and>
   (\<forall>sz ord p. read_raw_rgba data = Inr (sz, ord, p) \<longrightarrow>
      sz ^ 3 = length data div 4 \<and> ord = ''rgba'' \<and> p = data)"
  by (auto simp: read_raw_rgba_def Let_def round_cbrt_check power3_eq_cube)

theorem read_raw_rgba_fails_iff_witness:
  "length (replicate 32 (0::byte)) mod 4 = 0 \<and>
   (2::nat) ^ 3 = length (replicate 32 (0::byte)) div 4 \<and>
   \<not> (\<exists>e. read_raw_rgba (replicate 32 0) = Inl e) \<and>
   length (replicate 5 (0::byte)) mod 4 \<noteq> 0 \<and>
   (\<exists>e. read_raw_rgba (replicate 5 0) = Inl e)"
proof -
  have "\<exists>s::nat. s ^ 3 = length (replicate 32 (0::byte)) div 4"
    by (rule exI [of _ 2]) simp
  then show ?thesis
    using read_raw_rgba_fails_iff [of "replicate 32 0"] read_raw_rgba_fails_iff [of "replicate 5 0"]
    by simp
qed

section \<open>Properties of the repair step\<close>

lemma pad_loop_eq:
  "2 \<le> lsize \<Longrightarrow>
   pad_loop entries lsize = Inr (entries @ map (identity_entry lsize) [length entries..<lsize ^ 3])"
proof (induction entries lsize rule: pad_loop.induct)
  case (1 entries lsize)
  show ?case
  proof (cases "length entries < lsize ^ 3")
    case True
    then have "pad_loop entries lsize = pad_loop (entries @ [identity_entry lsize (length entries)]) lsize"
      using "1.prems" by (subst pad_loop.simps) simp
    also have "\<dots> = Inr ((entries @ [identity_entry lsize (length entries)]) @
        map (identity_entry lsize) [Suc (length entries)..<lsize ^ 3])"
      using "1.IH" [OF True refl] "1.prems" by simp
    also have "\<dots> = Inr (entries @ map (identity_entry lsize) [length entries..<lsize ^ 3])"
      using True by (simp add: upt_conv_Cons)
    finally show ?thesis .
  next
    case False
    then show ?thesis by (subst pad_loop.simps) simp
  qed
qed

lemma repair_eq:
  assumes "entries \<noteq> [] \<or> lsize \<noteq> 1"
  shows "repair entries lsize =
     Inr (take (lsize ^ 3) entries @ map (identity_entry lsize) [length entries..<lsize ^ 3])"
proof (cases "2 \<le> lsize")
  case True
  then show ?thesis by (simp add: repair_def Let_def pad_loop_eq)
next
  case False
  then have le: "lsize \<le> 1" by simp
  then have cube: "lsize ^ 3 \<le> 1" by (cases "lsize = 0") (auto simp: le_Suc_eq)
  show ?thesis
  proof (cases "entries = []")
    case True
    with assms le have "lsize = 0" by simp
    with True show ?thesis by (simp add: repair_def)
  next
    case False
    then have "1 \<le> length entries" by (cases entries) auto
    with cube show ?thesis by (simp add: repair_def Let_def)
  qed
qed

text \<open>
  C6. The repair step returns exactly \<open>lsize\<^sup>3\<close> entries: a longer input is cut to its
  first \<open>lsize\<^sup>3\<close> entries, a shorter one keeps its entries and gets, at every missing
  linear index \<open>idx\<close>, the identity value \<open>(r/(lsize-1), g/(lsize-1), b/(lsize-1))\<close> with
  \<open>r = idx mod lsize\<close>, \<open>g = (idx div lsize) mod lsize\<close>, \<open>b = idx div lsize\<^sup>2\<close>, and an input
  of the right length is returned as it is. The repair step is reached with a non-empty
  entry list only (an empty one has made the function return before); the hypothesis
  leaves out nothing but the empty list with \<open>lsize = 1\<close>.
\<close>

theorem repair_exact_count:
  assumes "entries \<noteq> [] \<or> lsize \<noteq> 1"
  shows "\<exists>out. repair entries lsize = Inr out \<and> length out = lsize ^ 3 \<and>
     (lsize ^ 3 < length entries \<longrightarrow> out = take (lsize ^ 3) entries) \<and>
     (length entries < lsize ^ 3 \<longrightarrow>
        take (length entries) out = entries \<and>
        (\<forall>idx. length entries \<le> idx \<and> idx < lsize ^ 3 \<longrightarrow>
           out ! idx = (of_nat (idx mod lsize) / of_nat (lsize - 1),
                        of_nat ((idx div lsize) mod lsize) / of_nat (lsize - 1),
                        of_nat (idx div (lsize * lsize)) / of_nat (lsize - 1)))) \<and>
     (length entries = lsize ^ 3 \<longrightarrow> out = entries)"
proof -
  let ?out = "take (lsize ^ 3) entries @ map (identity_entry lsize) [length entries..<lsize ^ 3]"
  have eq: "repair entries lsize = Inr ?out" by (rule repair_eq [OF assms])
  have len: "length ?out = lsize ^ 3" by auto
  have pad: "?out ! idx = identity_entry lsize idx"
    if "length entries < lsize ^ 3" "length entries \<le> idx" "idx < lsize ^ 3" for idx
    using that by (simp add: nth_append)
  show ?thesis
    using eq len pad by (auto simp: identity_entry_def Let_def)
qed

theorem repair_exact_count_witness:
  "[(0, 0, 0)] \<noteq> ([] :: triple list) \<and>
   (\<exists>out. repair [(0, 0, 0)] 2 = Inr out \<and> length out = 8 \<and>
      take 1 out = [(0, 0, 0)] \<and> out ! 3 = (1, 1, 0) \<and> out ! 7 = (1, 1, 1))"
proof -
  have h: "[(0, 0, 0)] \<noteq> ([] :: triple list) \<or> (2::nat) \<noteq> 1" by simp
  obtain out where r: "repair [(0, 0, 0)] 2 = Inr out" and l: "length out = 2 ^ 3"
    and t: "take 1 out = [(0, 0, 0)]"
    and p: "\<forall>idx. 1 \<le> idx \<and> idx < 2 ^ 3 \<longrightarrow>
           out ! idx = (of_nat (idx mod 2) / of_nat (2 - 1),
                        of_nat ((idx div 2) mod 2) / of_nat (2 - 1),
                        of_nat (idx div (2 * 2)) / of_nat (2 - 1))"
    using repair_exact_count [OF h] by auto
  from p have "out ! 3 = (1, 1, 0)" by (drule_tac x = 3 in spec) simp
  moreover from p have "out ! 7 = (1, 1, 1)" by (drule_tac x = 7 in spec) simp
  ultimately show ?thesis using h r l t by simp
qed

section \<open>Sizes produced by inference\<close>

lemma exact_loop_mem: "exact_loop remaining szs = Some (sz, ch) \<Longrightarrow> sz \<in> set szs"
  by (induction szs) (auto simp: Let_def split: if_splits)

lemma tolerance_loop_mem: "tolerance_loop remaining szs = Some (sz, ch) \<Longrightarrow> sz \<in> set szs"
  by (induction szs) (auto split: option.splits)

lemma fallback_size_ge: "16 \<le> fallback_size n"
  by (simp add: fallback_size_def)

lemma raw_lut_size_ge: "16 \<le> raw_lut_size n"
  by (simp add: raw_lut_size_def)

lemma infer_size_channels_ge: "16 \<le> fst (infer_size_channels remaining fsize)"
proof (cases "exact_loop remaining exact_sizes")
  case (Some p)
  obtain sz ch where p: "p = (sz, ch)" by (cases p)
  with Some have "sz \<in> set exact_sizes" by (auto dest: exact_loop_mem)
  then have "16 \<le> sz" by (auto simp: exact_sizes_def)
  with Some p show ?thesis by (simp add: infer_size_channels_def)
next
  case None
  note ex = this
  show ?thesis
  proof (cases "tolerance_loop remaining tolerance_sizes")
    case (Some p)
    obtain sz ch where p: "p = (sz, ch)" by (cases p)
    with Some have "sz \<in> set tolerance_sizes" by (auto dest: tolerance_loop_mem)
    then have "16 \<le> sz" by (auto simp: tolerance_sizes_def)
    with Some ex p show ?thesis by (simp add: infer_size_channels_def)
  next
    case None
    with ex show ?thesis by (simp add: infer_size_channels_def fallback_size_ge)
  qed
qed

lemma parse_header_layout:
  assumes "parse_ms_lut_header data = Inr (Some h)"
  shows "(lut_size h, channels h) =
           infer_size_channels (int (length data) - int (header_data_offset data)) (length data)
         \<and> file_size h = length data \<and> data_offset h = header_data_offset data"
  using assms unfolding parse_ms_lut_header_def Let_def
  by (auto split: if_splits sum.splits prod.splits)

lemma parse_lut_size_ge:
  assumes "parse_ms_lut_header data = Inr (Some h)"
  shows "16 \<le> lut_size h"
  using parse_header_layout [OF assms]
    infer_size_channels_ge [of "int (length data) - int (header_data_offset data)" "length data"]
  by (metis fst_conv)

lemma identity_entry_unit:
  assumes "2 \<le> lsize" and "idx < lsize ^ 3"
  shows "case identity_entry lsize idx of (r, g, b) \<Rightarrow>
           0 \<le> r \<and> r \<le> 1 \<and> 0 \<le> g \<and> g \<le> 1 \<and> 0 \<le> b \<and> b \<le> 1"
proof -
  have pos: "0 < lsize" using assms(1) by simp
  have "idx mod lsize < lsize" using pos by simp
  then have r: "idx mod lsize \<le> lsize - 1" by linarith
  have "(idx div lsize) mod lsize < lsize" using pos by simp
  then have g: "(idx div lsize) mod lsize \<le> lsize - 1" by linarith
  have "idx < lsize * lsize * lsize" using assms(2) by (simp add: power3_eq_cube)
  then have "idx div (lsize * lsize) < lsize"
    using pos by (simp add: less_mult_imp_div_less mult.commute)
  then have b: "idx div (lsize * lsize) \<le> lsize - 1" by simp
  have d: "(0::rat) < of_nat (lsize - 1)" using assms(1) by simp
  have q: "(of_nat k :: rat) / of_nat (lsize - 1) \<le> 1" if "k \<le> lsize - 1" for k
    using that d by (simp add: divide_le_eq)
  show ?thesis using r g b q by (simp add: identity_entry_def Let_def)
qed

text \<open>
  C10. Every cube size the header parser returns and every size guessed for a buffer
  without the magic is at least 16; for such a size the repair step never divides by
  zero (it returns a list), and each component of the identity value at any index below
  \<open>lsize\<^sup>3\<close> lies between 0 and 1.
\<close>

theorem inferred_sizes_safe:
  "(\<forall>h. parse_ms_lut_header data = Inr (Some h) \<longrightarrow>
      16 \<le> lut_size h \<and>
      (\<exists>out. repair entries (lut_size h) = Inr out) \<and>
      (\<forall>idx < lut_size h ^ 3. case identity_entry (lut_size h) idx of (r, g, b) \<Rightarrow>
           0 \<le> r \<and> r \<le> 1 \<and> 0 \<le> g \<and> g \<le> 1 \<and> 0 \<le> b \<and> b \<le> 1)) \<and>
   16 \<le> raw_lut_size n \<and>
   (\<exists>out. repair entries (raw_lut_size n) = Inr out) \<and>
   (\<forall>idx < raw_lut_size n ^ 3. case identity_entry (raw_lut_size n) idx of (r, g, b) \<Rightarrow>
        0 \<le> r \<and> r \<le> 1 \<and> 0 \<le> g \<and> g \<le> 1 \<and> 0 \<le> b \<and> b \<le> 1)"
proof -
  have rep: "\<exists>out. repair entries lsize = Inr out" if "16 \<le> lsize" for lsize
  proof -
    from that have "entries \<noteq> [] \<or> lsize \<noteq> 1" by simp
    then show ?thesis by (simp add: repair_eq)
  qed
  have unit: "\<forall>idx < lsize ^ 3. case identity_entry lsize idx of (r, g, b) \<Rightarrow>
           0 \<le> r \<and> r \<le> 1 \<and> 0 \<le> g \<and> g \<le> 1 \<and> 0 \<le> b \<and> b \<le> 1" if "16 \<le> lsize" for lsize
  proof (intro allI impI)
    fix idx assume "idx < lsize ^ 3"
    moreover from that have "2 \<le> lsize" by simp
    ultimately show "case identity_entry lsize idx of (r, g, b) \<Rightarrow>
           0 \<le> r \<and> r \<le> 1 \<and> 0 \<le> g \<and> g \<le> 1 \<and> 0 \<le> b \<and> b \<le> 1"
      by (rule identity_entry_unit [rotated])
  qed
  have hdr: "16 \<le> lut_size h \<and>
      (\<exists>out. repair entries (lut_size h) = Inr out) \<and>
      (\<forall>idx < lut_size h ^ 3. case identity_entry (lut_size h) idx of (r, g, b) \<Rightarrow>
           0 \<le> r \<and> r \<le> 1 \<and> 0 \<le> g \<and> g \<le> 1 \<and> 0 \<le> b \<and> b \<le> 1)"
    if "parse_ms_lut_header data = Inr (Some h)" for h
  proof -
    have "16 \<le> lut_size h" using that by (rule parse_lut_size_ge)
    then show ?thesis using rep unit by simp
  qed
  have raw: "16 \<le> raw_lut_size n" by (rule raw_lut_size_ge)
  show ?thesis
  proof (intro conjI)
    show "\<forall>h. parse_ms_lut_header data = Inr (Some h) \<longrightarrow>
      16 \<le> lut_size h \<and>
      (\<exists>out. repair entries (lut_size h) = Inr out) \<and>
      (\<forall>idx < lut_size h ^ 3. case identity_entry (lut_size h) idx of (r, g, b) \<Rightarrow>
           0 \<le> r \<and> r \<le> 1 \<and> 0 \<le> g \<and> g \<le> 1 \<and> 0 \<le> b \<and> b \<le> 1)"
      by (intro allI impI) (rule hdr)
    show "16 \<le> raw_lut_size n" by (rule raw)
    show "\<exists>out. repair entries (raw_lut_size n) = Inr out" by (rule rep [OF raw])
    show "\<forall>idx < raw_lut_size n ^ 3. case identity_entry (raw_lut_size n) idx of (r, g, b) \<Rightarrow>
        0 \<le> r \<and> r \<le> 1 \<and> 0 \<le> g \<and> g \<le> 1 \<and> 0 \<le> b \<and> b \<le> 1" by (rule unit [OF raw])
  qed
qed

section \<open>Properties of the header parser\<close>

lemma le_uint_zeros: "le_uint (replicate n 0) = 0"
  by (induction n) (simp_all add: le_uint_def)

lemma startswith_magic_append: "startswith (MS_MAGIC @ rest) MS_MAGIC"
  by (simp add: startswith_def)

lemma parse_zero_padded:
  assumes "8 \<le> k"
  shows "parse_ms_lut_header (MS_MAGIC @ replicate k 0) =
     Inr (Some \<lparr>version = 0,
                lut_size = fst (infer_size_channels (int k + 8 - 176) (k + 8)),
                file_size = k + 8, data_offset = 176,
                channels = snd (infer_size_channels (int k + 8 - 176) (k + 8))\<rparr>)"
proof -
  have len: "length MS_MAGIC = 8" by (simp add: MS_MAGIC_def)
  have u8: "unpack_u32 (MS_MAGIC @ replicate k 0) 8 = Inr 0"
    using assms by (simp add: unpack_u32_def slice_def len le_uint_zeros Let_def min_def)
  have u12: "unpack_u32 (MS_MAGIC @ replicate k 0) 12 = Inr 0"
    using assms by (simp add: unpack_u32_def slice_def len le_uint_zeros Let_def min_def)
  have off: "header_data_offset (MS_MAGIC @ replicate k 0) = 176"
    by (simp add: header_data_offset_def slice_def len le_uint_zeros Let_def)
  show ?thesis
    by (simp add: parse_ms_lut_header_def startswith_magic_append u8 u12 off len Let_def
        add.commute split: prod.splits)
qed

lemma infer_12289: "infer_size_channels 12289 12465 = (17, 3)"
  by (simp add: infer_size_channels_def exact_sizes_def tolerance_sizes_def fallback_size_def)

lemma parse_magic_only: "parse_ms_lut_header MS_MAGIC = Inl StructError"
  by (simp add: parse_ms_lut_header_def startswith_def unpack_u32_def slice_def MS_MAGIC_def)

lemma tolerance_loop_find:
  "tolerance_loop remaining szs =
     List.find (\<lambda>(sz, ch). \<bar>remaining - int (sz ^ 3 * ch)\<bar> \<le> 4)
       (concat (map (\<lambda>sz. [(sz, 3), (sz, 4)]) szs))"
  by (induction szs) (simp_all add: Let_def)

text \<open>
  C3 (as amended). The tolerance tier of the source visits the sizes 20, 17, 21, 25 only,
  in that order, each with 3 and then 4 channels, and accepts the first pair whose byte
  count differs from the remainder by at most 4; the sizes 32, 33 and 16 of the exact
  tier are not tried again. The pair the parser reports is the exact tier's result if
  there is one, else this first pair, else the file-size fallback with 3 channels.
\<close>

theorem tolerance_tier_sizes:
  "tolerance_loop remaining tolerance_sizes =
     List.find (\<lambda>(sz, ch). \<bar>remaining - int (sz ^ 3 * ch)\<bar> \<le> 4)
       [(20, 3), (20, 4), (17, 3), (17, 4), (21, 3), (21, 4), (25, 3), (25, 4)] \<and>
   infer_size_channels remaining fsize =
     (case exact_loop remaining exact_sizes of
        Some p \<Rightarrow> p
      | None \<Rightarrow>
          (case List.find (\<lambda>(sz, ch). \<bar>remaining - int (sz ^ 3 * ch)\<bar> \<le> 4)
                  [(20, 3), (20, 4), (17, 3), (17, 4), (21, 3), (21, 4), (25, 3), (25, 4)] of
             Some p \<Rightarrow> p
           | None \<Rightarrow> (fallback_size fsize, 3)))"
proof -
  have t: "tolerance_loop remaining tolerance_sizes =
     List.find (\<lambda>(sz, ch). \<bar>remaining - int (sz ^ 3 * ch)\<bar> \<le> 4)
       [(20, 3), (20, 4), (17, 3), (17, 4), (21, 3), (21, 4), (25, 3), (25, 4)]"
    unfolding tolerance_loop_find tolerance_sizes_def
    by (simp only: list.map concat.simps append.simps)
  show ?thesis
    unfolding infer_size_channels_def t [symmetric] by (rule conjI) (rule refl)+
qed

text \<open>
  The claim as stated fails: a remainder of 12289 bytes has no exact match and is within
  one byte of \<open>16\<^sup>3 \<times> 3\<close>, so the full list would give size 16 with 3 channels; the source's
  tolerance tier finds nothing and the parser falls back to size 17.
\<close>

theorem tolerance_tier_full_list_counterexample:
  "exact_loop 12289 exact_sizes = None \<and>
   spec_tolerance_tier 12289 = Some (16, 3) \<and>
   tolerance_loop 12289 tolerance_sizes = None \<and>
   parse_ms_lut_header (MS_MAGIC @ replicate 12457 0) =
     Inr (Some \<lparr>version = 0, lut_size = 17, file_size = 12465, data_offset = 176, channels = 3\<rparr>)"
proof -
  have "parse_ms_lut_header (MS_MAGIC @ replicate 12457 0) =
     Inr (Some \<lparr>version = 0, lut_size = 17, file_size = 12465, data_offset = 176, channels = 3\<rparr>)"
    by (simp add: parse_zero_padded infer_12289)
  moreover have "exact_loop 12289 exact_sizes = None"
    by (simp add: exact_sizes_def)
  moreover have "spec_tolerance_tier 12289 = Some (16, 3)"
    by (simp add: spec_tolerance_tier_def exact_sizes_def)
  moreover have "tolerance_loop 12289 tolerance_sizes = None"
    by (simp add: tolerance_sizes_def)
  ultimately show ?thesis by simp
qed

lemma unpack_u32_ok: "i + 4 \<le> length data \<Longrightarrow> \<exists>v. unpack_u32 data i = Inr v"
  by (simp add: unpack_u32_def slice_def Let_def)

text \<open>
  C7 (as amended). For every buffer of at least 16 bytes that begins with the magic, the
  parser returns a layout; when neither the exact tier nor the tolerance tier matches
  the remainder, the channel count is 3 and the size comes from the file-size buckets
  (up to 14900: 17, up to 17000: 16, up to 28000: 21, up to 100000: 32, up to 135000: 32,
  above: 33).
\<close>

theorem parse_total_from_16_bytes:
  assumes "startswith data MS_MAGIC" and "16 \<le> length data"
  shows "\<exists>h. parse_ms_lut_header data = Inr (Some h) \<and>
           file_size h = length data \<and>
           (exact_loop (int (length data) - int (data_offset h)) exact_sizes = None \<and>
            tolerance_loop (int (length data) - int (data_offset h)) tolerance_sizes = None \<longrightarrow>
              channels h = 3 \<and>
              lut_size h =
                (if length data \<le> 14900 then 17
                 else if length data \<le> 17000 then 16
                 else if length data \<le> 28000 then 21
                 else if length data \<le> 100000 then 32
                 else if length data \<le> 135000 then 32
                 else 33))"
proof -
  from assms(2) obtain ver where v: "unpack_u32 data 8 = Inr ver"
    using unpack_u32_ok [of 8 data] by auto
  from assms(2) obtain info where i: "unpack_u32 data 12 = Inr info"
    using unpack_u32_ok [of 12 data] by auto
  let ?r = "int (length data) - int (header_data_offset data)"
  obtain sz ch where sc: "infer_size_channels ?r (length data) = (sz, ch)"
    by (cases "infer_size_channels ?r (length data)")
  let ?h = "\<lparr>version = ver, lut_size = sz, file_size = length data,
             data_offset = header_data_offset data, channels = ch\<rparr>"
  have p: "parse_ms_lut_header data = Inr (Some ?h)"
    using assms(1) by (simp add: parse_ms_lut_header_def v i sc Let_def)
  have "channels ?h = 3 \<and> lut_size ?h = fallback_size (length data)"
    if "exact_loop ?r exact_sizes = None" "tolerance_loop ?r tolerance_sizes = None"
    using that sc by (simp add: infer_size_channels_def)
  then show ?thesis
    using p by (intro exI [of _ ?h]) (simp add: fallback_size_def)
qed

theorem parse_total_from_16_bytes_witness:
  "startswith (MS_MAGIC @ replicate 12457 0) MS_MAGIC \<and>
   16 \<le> length (MS_MAGIC @ replicate 12457 0) \<and>
   exact_loop 12289 exact_sizes = None \<and>
   tolerance_loop 12289 tolerance_sizes = None \<and>
   (\<exists>h. parse_ms_lut_header (MS_MAGIC @ replicate 12457 0) = Inr (Some h) \<and>
        int (length (MS_MAGIC @ replicate 12457 0)) - int (data_offset h) = 12289 \<and>
        channels h = 3 \<and> lut_size h = 17)"
proof -
  let ?d = "MS_MAGIC @ replicate 12457 0"
  let ?h = "\<lparr>version = 0, lut_size = 17, file_size = 12465, data_offset = 176, channels = 3\<rparr>"
  have len: "length ?d = 12465" by (simp add: MS_MAGIC_def)
  have s: "startswith ?d MS_MAGIC" by (rule startswith_magic_append)
  have l: "16 \<le> length ?d" unfolding len by simp
  have p: "parse_ms_lut_header ?d = Inr (Some ?h)"
    by (simp add: parse_zero_padded infer_12289)
  have e: "exact_loop 12289 exact_sizes = None"
    by (simp add: exact_sizes_def)
  have t: "tolerance_loop 12289 tolerance_sizes = None"
    by (simp add: tolerance_sizes_def)
  have r: "int (length ?d) - int (data_offset ?h) = 12289" unfolding len by simp
  from parse_total_from_16_bytes [OF s l] obtain h where
    hp: "parse_ms_lut_header ?d = Inr (Some h)" and
    himp: "exact_loop (int (length ?d) - int (data_offset h)) exact_sizes = None \<and>
           tolerance_loop (int (length ?d) - int (data_offset h)) tolerance_sizes = None \<longrightarrow>
             channels h = 3 \<and>
             lut_size h =
               (if length ?d \<le> 14900 then 17
                else if length ?d \<le> 17000 then 16
                else if length ?d \<le> 28000 then 21
                else if length ?d \<le> 100000 then 32
                else if length ?d \<le> 135000 then 32
                else 33)"
    by blast
  from hp p have h: "h = ?h" by simp
  from himp have "channels h = 3 \<and> lut_size h = 17"
    unfolding h r len using e t by simp
  with s l e t hp r h show ?thesis by blast
qed

text \<open>
  The claim as stated fails on a buffer that begins with the magic and is shorter than 16
  bytes: the unpack of the version field raises \<^verbatim>\<open>struct.error\<close>.
\<close>

theorem parse_total_counterexample:
  "startswith MS_MAGIC MS_MAGIC \<and> parse_ms_lut_header MS_MAGIC = Inl StructError"
  by (simp add: parse_magic_only) (simp add: startswith_def)

section \<open>The text pass-through of convert\_bin\_to\_cube\<close>

lemma decode_title: "decode_ascii_ignore [0x54, 0x49, 0x54, 0x4C, 0x45] = ''TITLE''"
  by code_simp

text \<open>
  C9. If the first 20 bytes of the input are ASCII and the first 500 bytes, decoded as
  ASCII with the other bytes dropped, contain \<^verbatim>\<open>LUT_3D_SIZE\<close> or \<^verbatim>\<open>TITLE\<close>, then
  \<open>convert_bin_to_cube\<close> writes the input bytes unchanged and reports success: no header
  is parsed and nothing is decoded, repaired or normalised.
\<close>

theorem ascii_cube_is_copied:
  assumes "isascii (slice buf 0 20)"
    and "contains ''LUT_3D_SIZE'' (decode_ascii_ignore (slice buf 0 500)) \<or>
         contains ''TITLE'' (decode_ascii_ignore (slice buf 0 500))"
  shows "convert_bin_to_cube stem buf = Copied buf"
  using assms by (simp add: convert_bin_to_cube_def Let_def)

theorem ascii_cube_is_copied_witness:
  "isascii (slice [0x54, 0x49, 0x54, 0x4C, 0x45] 0 20) \<and>
   contains ''TITLE'' (decode_ascii_ignore (slice [0x54, 0x49, 0x54, 0x4C, 0x45] 0 500)) \<and>
   convert_bin_to_cube ''lut'' [0x54, 0x49, 0x54, 0x4C, 0x45] = Copied [0x54, 0x49, 0x54, 0x4C, 0x45]"
proof -
  have a: "isascii (slice [0x54, 0x49, 0x54, 0x4C, 0x45] 0 20)"
    by (simp add: isascii_def slice_def)
  have "slice [0x54, 0x49, 0x54, 0x4C, 0x45] 0 500 = [0x54, 0x49, 0x54, 0x4C, 0x45]"
    by (simp add: slice_def)
  then have b: "contains ''TITLE'' (decode_ascii_ignore (slice [0x54, 0x49, 0x54, 0x4C, 0x45] 0 500))"
    by (simp add: decode_title)
  from ascii_cube_is_copied [OF a disjI2 [OF b]] a b show ?thesis by simp
qed

theorem inferred_sizes_safe_witness:
  "parse_ms_lut_header (MS_MAGIC @ replicate 12457 0) =
     Inr (Some \<lparr>version = 0, lut_size = 17, file_size = 12465, data_offset = 176, channels = 3\<rparr>) \<and>
   (16::nat) \<le> 17 \<and> (\<exists>out. repair [] 17 = Inr out) \<and> (4912::nat) < 17 ^ 3 \<and>
   (case identity_entry 17 4912 of (r, g, b) \<Rightarrow>
      0 \<le> r \<and> r \<le> 1 \<and> 0 \<le> g \<and> g \<le> 1 \<and> 0 \<le> b \<and> b \<le> 1)"
proof -
  let ?h = "\<lparr>version = 0, lut_size = 17, file_size = 12465, data_offset = 176, channels = 3\<rparr>"
  have p: "parse_ms_lut_header (MS_MAGIC @ replicate 12457 0) = Inr (Some ?h)"
    by (simp add: parse_zero_padded infer_12289)
  note w = inferred_sizes_safe [of "MS_MAGIC @ replicate 12457 0" "[]" 0,
      THEN conjunct1, THEN spec, THEN mp, OF p]
  have a: "16 \<le> lut_size ?h" and b: "\<exists>out. repair [] (lut_size ?h) = Inr out"
    and c: "\<forall>idx < lut_size ?h ^ 3. case identity_entry (lut_size ?h) idx of (r, g, b) \<Rightarrow>
           0 \<le> r \<and> r \<le> 1 \<and> 0 \<le> g \<and> g \<le> 1 \<and> 0 \<le> b \<and> b \<le> 1"
    using w by (rule conjunct1, rule conjunct2 [THEN conjunct1], rule conjunct2 [THEN conjunct2])
  have d: "(4912::nat) < 17 ^ 3" by simp
  with c have "case identity_entry 17 4912 of (r, g, b) \<Rightarrow>
           0 \<le> r \<and> r \<le> 1 \<and> 0 \<le> g \<and> g \<le> 1 \<and> 0 \<le> b \<and> b \<le> 1"
    by (drule_tac x = 4912 in spec) simp
  with p a b d show ?thesis by simp
qed

section \<open>Properties of iter\_values\<close>

lemma upt_block: "[m * n..<m * n + n] = map (\<lambda>j. m * n + j) [0..<n]"
  using map_add_upt [of "m * n" n] by (simp add: add.commute)

lemma concat_map_upt:
  "concat (map (\<lambda>i. map (\<lambda>j. f i j) [0..<n]) [0..<m]) =
     map (\<lambda>k. f (k div n) (k mod n)) [0..<m * n]"
proof (induction m)
  case 0
  show ?case by simp
next
  case (Suc m)
  have blk: "map (\<lambda>k. f (k div n) (k mod n)) [m * n..<m * n + n] = map (\<lambda>j. f m j) [0..<n]"
  proof -
    have "map (\<lambda>k. f (k div n) (k mod n)) [m * n..<m * n + n] =
        map (\<lambda>j. f ((m * n + j) div n) ((m * n + j) mod n)) [0..<n]"
      unfolding upt_block map_map comp_def ..
    also have "\<dots> = map (\<lambda>j. f m j) [0..<n]"
    proof (rule map_cong [OF refl])
      fix j assume "j \<in> set [0..<n]"
      then have j: "j < n" by simp
      then have "(m * n + j) div n = m" and "(m * n + j) mod n = j" by simp_all
      then show "f ((m * n + j) div n) ((m * n + j) mod n) = f m j" by simp
    qed
    finally show ?thesis .
  qed
  have "[0..<m * n + n] = [0..<m * n] @ [m * n..<m * n + n]"
    by (rule upt_add_eq_append) simp
  then have "map (\<lambda>k. f (k div n) (k mod n)) [0..<m * n + n] =
      map (\<lambda>k. f (k div n) (k mod n)) [0..<m * n] @ map (\<lambda>j. f m j) [0..<n]"
    by (simp only: map_append blk)
  moreover have "Suc m * n = m * n + n" by simp
  moreover have "concat (map (\<lambda>i. map (\<lambda>j. f i j) [0..<n]) [0..<Suc m]) =
      concat (map (\<lambda>i. map (\<lambda>j. f i j) [0..<n]) [0..<m]) @ map (\<lambda>j. f m j) [0..<n]"
    by simp
  ultimately show ?case using Suc.IH by (simp only:)
qed

lemma nested_loops_flat:
  "concat (map (\<lambda>b. concat (map (\<lambda>g. map (\<lambda>r. f b g r) [0..<n]) [0..<n])) [0..<n]) =
     map (\<lambda>k. f (k div (n * n)) ((k mod (n * n)) div n) ((k mod (n * n)) mod n)) [0..<n * (n * n)]"
proof -
  have "concat (map (\<lambda>b. concat (map (\<lambda>g. map (\<lambda>r. f b g r) [0..<n]) [0..<n])) [0..<n]) =
      concat (map (\<lambda>b. map (\<lambda>k. f b (k div n) (k mod n)) [0..<n * n]) [0..<n])"
    by (simp only: concat_map_upt)
  also have "\<dots> = map (\<lambda>k. f (k div (n * n)) ((k mod (n * n)) div n) ((k mod (n * n)) mod n))
      [0..<n * (n * n)]"
    by (rule concat_map_upt [of "\<lambda>b k. f b (k div n) (k mod n)" "n * n" n])
  finally show ?thesis .
qed

lemma collect_Inr:
  "collect xs = Inr vs \<Longrightarrow> length vs = length xs \<and> (\<forall>k < length xs. xs ! k = Inr (vs ! k))"
proof (induction xs arbitrary: vs)
  case Nil
  then show ?case by simp
next
  case (Cons x xs)
  from Cons.prems obtain v vs' where x: "x = Inr v" and c: "collect xs = Inr vs'" and vs: "vs = v # vs'"
    by (auto split: sum.splits)
  from Cons.IH [OF c] have l: "length vs' = length xs" and n: "\<forall>k < length xs. xs ! k = Inr (vs' ! k)"
    by simp_all
  show ?case
  proof (intro conjI allI impI)
    show "length vs = length (x # xs)" using l vs by simp
  next
    fix k assume "k < length (x # xs)"
    then show "(x # xs) ! k = Inr (vs ! k)"
      using x vs n by (cases k) simp_all
  qed
qed

lemma collect_all_Inr:
  "(\<forall>x \<in> set xs. \<exists>v. f x = Inr v) \<Longrightarrow> \<exists>vs. collect (map f xs) = Inr vs"
  by (induction xs) auto

lemma iter_values_flat:
  assumes "order = ''rgb'' \<or> order = ''bgr'' \<or> order = ''rgba''"
  shows "iter_values n payload order =
     collect (map (\<lambda>k. texel payload
        (texel_index order n ((k mod (n * n)) mod n) ((k mod (n * n)) div n) (k div (n * n))))
        [0..<n * (n * n)])"
proof -
  have rgb: "iter_values n payload ''rgb'' =
      collect (concat (map (\<lambda>b. concat (map (\<lambda>g.
          map (\<lambda>r. texel payload (texel_index ''rgb'' n r g b)) [0..<n]) [0..<n])) [0..<n]))"
    by (simp add: iter_values_def texel_index_def Let_def)
  have bgr: "iter_values n payload ''bgr'' =
      collect (concat (map (\<lambda>b. concat (map (\<lambda>g.
          map (\<lambda>r. texel payload (texel_index ''bgr'' n r g b)) [0..<n]) [0..<n])) [0..<n]))"
    by (simp add: iter_values_def texel_index_def Let_def)
  have rgba: "iter_values n payload ''rgba'' =
      collect (concat (map (\<lambda>b. concat (map (\<lambda>g.
          map (\<lambda>r. texel payload (texel_index ''rgba'' n r g b)) [0..<n]) [0..<n])) [0..<n]))"
    by (simp add: iter_values_def texel_index_def Let_def)
  from assms show ?thesis
  proof (elim disjE)
    assume "order = ''rgb''"
    then show ?thesis
      using rgb nested_loops_flat [of "\<lambda>b g r. texel payload (texel_index ''rgb'' n r g b)" n]
      by simp
  next
    assume "order = ''bgr''"
    then show ?thesis
      using bgr nested_loops_flat [of "\<lambda>b g r. texel payload (texel_index ''bgr'' n r g b)" n]
      by simp
  next
    assume "order = ''rgba''"
    then show ?thesis
      using rgba nested_loops_flat [of "\<lambda>b g r. texel payload (texel_index ''rgba'' n r g b)" n]
      by simp
  qed
qed

lemma canonical_decompose:
  fixes n r g b :: nat
  assumes "r < n" "g < n"
  shows "(b * (n * n) + g * n + r) div (n * n) = b"
    and "((b * (n * n) + g * n + r) mod (n * n)) div n = g"
    and "((b * (n * n) + g * n + r) mod (n * n)) mod n = r"
proof -
  have "g * n + r < g * n + n" using assms(1) by simp
  also have "\<dots> = Suc g * n" by simp
  also have "\<dots> \<le> n * n" using assms(2) by (simp add: Suc_leI mult_le_mono1 del: mult_Suc)
  finally have x: "g * n + r < n * n" .
  have k: "b * (n * n) + g * n + r = b * (n * n) + (g * n + r)" by simp
  from assms(1) have nz': "n \<noteq> 0" by auto
  then have nz: "n * n \<noteq> 0" by simp
  show "(b * (n * n) + g * n + r) div (n * n) = b" unfolding k using x nz by simp
  have m: "(b * (n * n) + g * n + r) mod (n * n) = g * n + r" unfolding k using x by simp
  show "((b * (n * n) + g * n + r) mod (n * n)) div n = g" unfolding m using assms(1) nz' by simp
  show "((b * (n * n) + g * n + r) mod (n * n)) mod n = r" unfolding m using assms(1) by simp
qed

lemma canonical_bound:
  fixes n r g b :: nat
  assumes "r < n" "g < n" "b < n"
  shows "b * (n * n) + g * n + r < n * (n * n)"
proof -
  have "g * n + r < g * n + n" using assms(1) by simp
  also have "\<dots> = Suc g * n" by simp
  also have "\<dots> \<le> n * n" using assms(2) by (simp add: Suc_leI mult_le_mono1 del: mult_Suc)
  finally have x: "g * n + r < n * n" .
  then have "b * (n * n) + g * n + r < b * (n * n) + n * n" by simp
  also have "\<dots> = Suc b * (n * n)" by simp
  also have "\<dots> \<le> n * (n * n)" using assms(3) by (simp add: Suc_leI mult_le_mono1 del: mult_Suc)
  finally show ?thesis .
qed

lemma iter_values_bgr_unit:
  "iter_values 1 [10, 20, 30] ''bgr'' = Inr [(byte_val 10, byte_val 20, byte_val 30)]"
  by (simp add: iter_values_def texel_def Let_def)

text \<open>
  C4 (as amended). For a byte payload, the triple that \<open>iter_values\<close> yields at the
  canonical position of \<open>(r, g, b)\<close> (blue outer, red inner) is
  \<open>(byte[i], byte[i+1], byte[i+2]) / 255\<close>, the three bytes in that same position order for
  every channel order. The order selects the texel index only:
  \<open>i = 3 (r + g N + b N\<^sup>2)\<close> for \<open>''rgb''\<close>, \<open>i = 3 (b + g N + r N\<^sup>2)\<close> for \<open>''bgr''\<close> (the axes
  of red and blue swap, the bytes within a texel do not), and \<open>i = 4 (r + g N + b N\<^sup>2)\<close> for
  \<open>''rgba''\<close>, whose 4-byte stride skips the alpha byte. The generator yields \<open>N\<^sup>3\<close> triples.
\<close>

theorem iter_values_texel:
  assumes "iter_values n payload order = Inr vals"
    and "order = ''rgb'' \<or> order = ''bgr'' \<or> order = ''rgba''"
    and "r < n" and "g < n" and "b < n"
  shows "length vals = n ^ 3 \<and>
         (let i = (if order = ''rgb'' then 3 * (r + g * n + b * n * n)
                   else if order = ''bgr'' then 3 * (b + g * n + r * n * n)
                   else 4 * (r + g * n + b * n * n))
          in i + 2 < length payload \<and>
             vals ! (b * n * n + g * n + r) =
               (byte_val (payload ! i), byte_val (payload ! (i + 1)), byte_val (payload ! (i + 2))))"
proof -
  let ?k = "b * (n * n) + g * n + r"
  let ?xs = "map (\<lambda>k. texel payload
        (texel_index order n ((k mod (n * n)) mod n) ((k mod (n * n)) div n) (k div (n * n))))
        [0..<n * (n * n)]"
  from assms(1) have c: "collect ?xs = Inr vals"
    by (simp only: iter_values_flat [OF assms(2)])
  from collect_Inr [OF c] have len: "length vals = n * (n * n)"
    and nth: "\<forall>k < n * (n * n). ?xs ! k = Inr (vals ! k)" by simp_all
  have kb: "?k < n * (n * n)" using assms(3-5) by (rule canonical_bound)
  from nth kb have "?xs ! ?k = Inr (vals ! ?k)" by blast
  then have t: "texel payload (texel_index order n r g b) = Inr (vals ! ?k)"
    using kb by (simp add: canonical_decompose [OF assms(3,4)])
  let ?i = "texel_index order n r g b"
  from t have i: "?i + 2 < length payload" and
    v: "vals ! ?k = (byte_val (payload ! ?i), byte_val (payload ! (?i + 1)), byte_val (payload ! (?i + 2)))"
    by (auto simp: texel_def split: if_splits)
  have ieq: "?i = (if order = ''rgb'' then 3 * (r + g * n + b * n * n)
                   else if order = ''bgr'' then 3 * (b + g * n + r * n * n)
                   else 4 * (r + g * n + b * n * n))"
    by (simp add: texel_index_def algebra_simps)
  have keq: "b * n * n + g * n + r = ?k" by (simp add: algebra_simps)
  show ?thesis
    unfolding Let_def ieq [symmetric] keq using len i v by (simp add: power3_eq_cube)
qed


theorem iter_values_texel_witness:
  "iter_values 1 [10, 20, 30] ''bgr'' = Inr [(byte_val 10, byte_val 20, byte_val 30)] \<and>
   (0::nat) < 1 \<and>
   length [(byte_val 10, byte_val 20, byte_val 30)] = 1 \<and>
   [(byte_val 10, byte_val 20, byte_val 30)] ! 0 =
     (byte_val ([10, 20, 30] ! 0), byte_val ([10, 20, 30] ! 1), byte_val ([10, 20, 30] ! 2))"
proof -
  have z: "(0::nat) < 1" by simp
  have o: "''bgr'' = ''rgb'' \<or> ''bgr'' = ''bgr'' \<or> ''bgr'' = ''rgba''" by simp
  from iter_values_texel [OF iter_values_bgr_unit o z z z] show ?thesis
    using iter_values_bgr_unit by (simp add: Let_def)
qed

text \<open>
  The claim as stated fails: in \<open>''bgr''\<close> order the red component is still read from
  position \<open>i\<close>, not from \<open>i + 2\<close>.
\<close>

theorem iter_values_bgr_counterexample:
  "(\<exists>vals. iter_values 1 [10, 20, 30] ''bgr'' = Inr vals \<and>
      fst (vals ! 0) = byte_val ([10, 20, 30] ! 0) \<and>
      fst (vals ! 0) \<noteq> byte_val ([10, 20, 30] ! 2))"
proof -
  have "byte_val 10 \<noteq> byte_val 30" by (simp add: byte_val_def)
  then show ?thesis
    using iter_values_bgr_unit
    by (intro exI [of _ "[(byte_val 10, byte_val 20, byte_val 30)]"]) simp
qed

section \<open>Properties of convert\_file\<close>

lemma texel_index_bound:
  fixes n r g b :: nat
  assumes "order = ''rgb'' \<or> order = ''bgr'' \<or> order = ''rgba''"
    and "r < n" "g < n" "b < n"
  shows "texel_index order n r g b + 2 < (if order = ''rgba'' then 4 else 3) * (n * (n * n))"
proof -
  have x: "b * (n * n) + g * n + r < n * (n * n)" using assms(2-4) by (rule canonical_bound)
  have y: "r * (n * n) + g * n + b < n * (n * n)" using assms(4,3,2) by (rule canonical_bound)
  have rgb: "texel_index ''rgb'' n r g b = 3 * (b * (n * n) + g * n + r)"
    by (simp add: texel_index_def algebra_simps)
  have bgr: "texel_index ''bgr'' n r g b = 3 * (r * (n * n) + g * n + b)"
    by (simp add: texel_index_def algebra_simps)
  have rgba: "texel_index ''rgba'' n r g b = 4 * (b * (n * n) + g * n + r)"
    by (simp add: texel_index_def algebra_simps)
  from assms(1) show ?thesis
  proof (elim disjE)
    assume "order = ''rgb''"
    then show ?thesis using x rgb by simp
  next
    assume "order = ''bgr''"
    then show ?thesis using y bgr by simp
  next
    assume "order = ''rgba''"
    then show ?thesis using x rgba by simp
  qed
qed

lemma iter_values_ok:
  assumes ord: "order = ''rgb'' \<or> order = ''bgr'' \<or> order = ''rgba''"
    and len: "(if order = ''rgba'' then 4 else 3) * (n * (n * n)) \<le> length payload"
  shows "\<exists>vals. iter_values n payload order = Inr vals"
proof -
  have "\<exists>v. texel payload
        (texel_index order n ((k mod (n * n)) mod n) ((k mod (n * n)) div n) (k div (n * n))) = Inr v"
    if "k \<in> set [0..<n * (n * n)]" for k
  proof -
    from that have k: "k < n * (n * n)" by simp
    then have n: "0 < n" by (cases "n = 0") simp_all
    have r: "(k mod (n * n)) mod n < n" using n by simp
    have "k mod (n * n) < n * n" using n by simp
    then have g: "(k mod (n * n)) div n < n" using n by (simp add: less_mult_imp_div_less)
    have b: "k div (n * n) < n" using k n by (simp add: less_mult_imp_div_less mult.commute)
    from texel_index_bound [OF ord r g b] len show ?thesis
      by (simp add: texel_def)
  qed
  then have "\<exists>vs. collect (map (\<lambda>k. texel payload
        (texel_index order n ((k mod (n * n)) mod n) ((k mod (n * n)) div n) (k div (n * n))))
        [0..<n * (n * n)]) = Inr vs"
    by (intro collect_all_Inr) blast
  then show ?thesis by (simp only: iter_values_flat [OF ord])
qed

lemma iter_values_length:
  assumes "iter_values n payload order = Inr vals"
    and ord: "order = ''rgb'' \<or> order = ''bgr'' \<or> order = ''rgba''"
  shows "length vals = n ^ 3"
proof -
  from assms(1) have "collect (map (\<lambda>k. texel payload
        (texel_index order n ((k mod (n * n)) mod n) ((k mod (n * n)) div n) (k div (n * n))))
        [0..<n * (n * n)]) = Inr vals"
    by (simp only: iter_values_flat [OF ord])
  from collect_Inr [OF this] show ?thesis by (simp add: power3_eq_cube)
qed

lemma read_ms_lut_Inr:
  assumes "read_ms_lut data = Inr (sz, ord, p)"
  shows "length p = 3 * (sz * (sz * sz)) \<and> (ord = ''rgb'' \<or> ord = ''bgr'')"
  using assms unfolding read_ms_lut_def Let_def
  by (auto simp: slice_def split: if_splits)

lemma read_raw_rgba_Inr:
  assumes "read_raw_rgba data = Inr (sz, ord, p)"
  shows "ord = ''rgba'' \<and> p = data \<and> length data = 4 * (sz * (sz * sz))"
  using assms unfolding read_raw_rgba_def Let_def
  by (auto split: if_splits)

lemma convert_file_ms:
  assumes "read_ms_lut data = Inr (sz, ord, p)"
  shows "\<exists>vals. length vals = sz ^ 3 \<and>
     convert_file name data = Inr (cube_header name sz @ map data_line vals, sz, ''ms-lut'')"
proof -
  from read_ms_lut_Inr [OF assms] have l: "length p = 3 * (sz * (sz * sz))"
    and o: "ord = ''rgb'' \<or> ord = ''bgr''" by simp_all
  from o have o3: "ord = ''rgb'' \<or> ord = ''bgr'' \<or> ord = ''rgba''" by blast
  from o have "ord \<noteq> ''rgba''" by auto
  with l have "(if ord = ''rgba'' then 4 else 3) * (sz * (sz * sz)) \<le> length p" by simp
  from iter_values_ok [OF o3 this] obtain vals where v: "iter_values sz p ord = Inr vals" ..
  have "convert_file name data = Inr (cube_header name sz @ map data_line vals, sz, ''ms-lut'')"
    unfolding convert_file_def by (simp add: assms v cube_header_def)
  with iter_values_length [OF v o3] show ?thesis by blast
qed

lemma convert_file_raw:
  assumes "read_ms_lut data = Inl e" and "read_raw_rgba data = Inr (sz, ord, p)"
  shows "\<exists>vals. length vals = sz ^ 3 \<and>
     convert_file name data = Inr (cube_header name sz @ map data_line vals, sz, ''rgba'')"
proof -
  from read_raw_rgba_Inr [OF assms(2)] have o: "ord = ''rgba''" and p: "p = data"
    and l: "length data = 4 * (sz * (sz * sz))" by simp_all
  from o have o3: "ord = ''rgb'' \<or> ord = ''bgr'' \<or> ord = ''rgba''" by blast
  from o l p have "(if ord = ''rgba'' then 4 else 3) * (sz * (sz * sz)) \<le> length p" by simp
  from iter_values_ok [OF o3 this] obtain vals where v: "iter_values sz p ord = Inr vals" ..
  have "convert_file name data = Inr (cube_header name sz @ map data_line vals, sz, ''rgba'')"
    unfolding convert_file_def by (simp add: assms v cube_header_def)
  with iter_values_length [OF v o3] show ?thesis by blast
qed

lemma convert_file_fail:
  assumes "read_ms_lut data = Inl e" and "read_raw_rgba data = Inl e'"
  shows "convert_file name data = Inl e'"
  unfolding convert_file_def by (simp add: assms)

lemma extract_loop_length:
  "0 < chans \<Longrightarrow>
   length (extract_loop buf chans num i) =
     min num (if length buf < 3 then 0 else (length buf - 3) div chans + 1) - i"
proof (induction buf chans num i rule: extract_loop.induct)
  case (1 buf chans num i)
  note c = \<open>0 < chans\<close>
  define B where "B = (if length buf < 3 then 0 else (length buf - 3) div chans + 1)"
  have "length (extract_loop buf chans num i) = min num B - i"
  proof (cases "i < num")
    case False
    then show ?thesis by (subst extract_loop.simps) simp
  next
    case True
    note lt = this
    show ?thesis
    proof (cases "length buf < i * chans + 3")
      case True
      have "B \<le> i"
      proof (cases "length buf < 3")
        case True then show ?thesis by (simp add: B_def)
      next
        case False
        with True have "length buf - 3 < i * chans" by simp
        then have "(length buf - 3) div chans < i"
          using c by (simp add: div_less_iff_less_mult)
        with False show ?thesis by (simp add: B_def)
      qed
      then have "min num B - i = 0" by simp
      moreover have "extract_loop buf chans num i = []"
        using lt True by (subst extract_loop.simps) (simp add: Let_def)
      ultimately show ?thesis by simp
    next
      case False
      then have ge: "i * chans + 3 \<le> length buf" by simp
      have "i < B"
      proof -
        from ge have "i * chans \<le> length buf - 3" and "\<not> length buf < 3" by simp_all
        moreover from this(1) have "i \<le> (length buf - 3) div chans"
          using c by (simp add: less_eq_div_iff_mult_less_eq)
        ultimately show ?thesis by (simp add: B_def)
      qed
      with lt have m: "Suc i \<le> min num B" by simp
      have "extract_loop buf chans num i =
          (byte_val (buf ! (i * chans)), byte_val (buf ! (i * chans + 1)), byte_val (buf ! (i * chans + 2)))
          # extract_loop buf chans num (i + 1)"
        using lt False by (subst extract_loop.simps) (simp add: Let_def)
      moreover have "length (extract_loop buf chans num (i + 1)) = min num B - (i + 1)"
        unfolding B_def by (rule "1.IH" [OF lt refl False c])
      ultimately have "length (extract_loop buf chans num i) = Suc (min num B - (i + 1))"
        by simp
      with m show ?thesis by linarith
    qed
  qed
  then show ?case by (simp only: B_def)
qed

lemma round_cbrt_24576: "round_cbrt 24576 = 29"
proof -
  have "cbrt_floor_from 24576 0 = 29" by (rule cbrt_floor_unique) simp_all
  then show ?thesis by (simp add: round_cbrt_def)
qed

lemma read_raw_rgba_98304: "length buf = 98304 \<Longrightarrow> read_raw_rgba buf = Inl NotPerfectCube"
  by (simp add: read_raw_rgba_def round_cbrt_24576)

lemma read_ms_lut_no_magic: "\<not> startswith buf MS_MAGIC \<Longrightarrow> read_ms_lut buf = Inl MissingHeader"
  by (simp add: read_ms_lut_def)








section \<open>A headerless buffer of 98304 bytes\<close>

lemma headerless_buffer:
  "length (0xFF # replicate 98303 (0::byte)) = 98304"
  "\<not> startswith (0xFF # replicate 98303 0) MS_MAGIC"
  "\<not> isascii (slice (0xFF # replicate 98303 0) 0 20)"
  by (simp_all add: startswith_def MS_MAGIC_def isascii_def slice_def)

text \<open>
  C1 (a defect of the code). A payload of 98304 bytes (\<open>32\<^sup>3 \<times> 3\<close>) without the magic, and
  not taken for cube text, should be read as size 32 with 3 channels. Neither converter
  does so. In convert\_oppo\_luts the header parser returns \<^verbatim>\<open>None\<close>, the table of raw
  file sizes gives size 32 (its entry is commented \<^verbatim>\<open>32^3 * 3 (RGB)\<close>), but the channel
  count is 4 because 98304 is a multiple of 4; only 24576 entries are extracted, fewer
  than 90 percent of \<open>32\<^sup>3\<close>, and \<open>convert_bin_to_cube\<close> reports failure, although a stride
  of 3 would have given all \<open>32\<^sup>3\<close> entries. In convert\_bin\_to\_cube.py the raw path
  counts 4-byte texels and raises, since 24576 is not a perfect cube.
\<close>

theorem headerless_98304_rejected:
  assumes "length buf = 98304" and "\<not> startswith buf MS_MAGIC"
    and "\<not> (isascii (slice buf 0 20) \<and>
            (contains ''LUT_3D_SIZE'' (decode_ascii_ignore (slice buf 0 500)) \<or>
             contains ''TITLE'' (decode_ascii_ignore (slice buf 0 500))))"
  shows "parse_ms_lut_header buf = Inr None \<and>
         raw_lut_size (length buf) = 32 \<and>
         raw_channels (length buf) = 4 \<and>
         length (extract_byte_lut buf (raw_lut_size (length buf)) (raw_channels (length buf))) = 24576 \<and>
         convert_bin_to_cube stem buf = Failed \<and>
         length (extract_byte_lut buf 32 3) = 32 ^ 3 \<and>
         read_ms_lut buf = Inl MissingHeader \<and>
         read_raw_rgba buf = Inl NotPerfectCube \<and>
         convert_file name buf = Inl NotPerfectCube"
proof -
  have p: "parse_ms_lut_header buf = Inr None"
    using assms(2) by (simp add: parse_ms_lut_header_def)
  have sz: "raw_lut_size (length buf) = 32"
    using assms(1) by (simp add: raw_lut_size_def)
  have ch: "raw_channels (length buf) = 4"
    using assms(1) by (simp add: raw_channels_def)
  have len4: "length (extract_byte_lut buf 32 4) = 24576"
    using assms(1) by (simp add: extract_byte_lut_def extract_loop_length)
  have len3: "length (extract_byte_lut buf 32 3) = 32 ^ 3"
    using assms(1) by (simp add: extract_byte_lut_def extract_loop_length)
  have "convert_bin_to_cube stem buf =
      (if extract_byte_lut buf 32 4 = [] \<or>
          (of_nat (length (extract_byte_lut buf 32 4)) :: rat) < of_nat (32 ^ 3) * (9 / 10)
       then Failed
       else (case repair (extract_byte_lut buf 32 4) 32 of
               Inl e \<Rightarrow> Failed
             | Inr entries' \<Rightarrow> Written (write_cube_file entries' 32 stem)))"
    unfolding convert_bin_to_cube_def Let_def using assms(3)
    by (simp only: p ch sz sum.case option.case prod.case if_False simp_thms)
  then have f: "convert_bin_to_cube stem buf = Failed"
    by (simp add: len4)
  have m: "read_ms_lut buf = Inl MissingHeader"
    using assms(2) by (rule read_ms_lut_no_magic)
  have r: "read_raw_rgba buf = Inl NotPerfectCube"
    using assms(1) by (rule read_raw_rgba_98304)
  have c: "convert_file name buf = Inl NotPerfectCube"
    using m r by (rule convert_file_fail)
  show ?thesis
    by (intro conjI p sz ch f len3 m r c) (simp only: sz ch len4)
qed

theorem headerless_98304_rejected_witness:
  "length (0xFF # replicate 98303 (0::byte)) = 98304 \<and>
   \<not> startswith (0xFF # replicate 98303 0) MS_MAGIC \<and>
   \<not> isascii (slice (0xFF # replicate 98303 0) 0 20) \<and>
   raw_lut_size (length (0xFF # replicate 98303 (0::byte))) = 32 \<and>
   raw_channels (length (0xFF # replicate 98303 (0::byte))) = 4 \<and>
   convert_bin_to_cube ''lut'' (0xFF # replicate 98303 0) = Failed \<and>
   length (extract_byte_lut (0xFF # replicate 98303 0) 32 3) = 32 ^ 3 \<and>
   convert_file ''lut.bin'' (0xFF # replicate 98303 0) = Inl NotPerfectCube"
proof -
  let ?buf = "0xFF # replicate 98303 (0::byte)"
  have t: "\<not> (isascii (slice ?buf 0 20) \<and>
            (contains ''LUT_3D_SIZE'' (decode_ascii_ignore (slice ?buf 0 500)) \<or>
             contains ''TITLE'' (decode_ascii_ignore (slice ?buf 0 500))))"
    using headerless_buffer(3) by blast
  note w = headerless_98304_rejected [OF headerless_buffer(1,2) t, of "''lut''" "''lut.bin''"]
  show ?thesis
    by (intro conjI headerless_buffer w [THEN conjunct2, THEN conjunct1]
        w [THEN conjunct2, THEN conjunct2, THEN conjunct1]
        w [THEN conjunct2, THEN conjunct2, THEN conjunct2, THEN conjunct2, THEN conjunct1]
        w [THEN conjunct2, THEN conjunct2, THEN conjunct2, THEN conjunct2, THEN conjunct2, THEN conjunct1]
        w [THEN conjunct2, THEN conjunct2, THEN conjunct2, THEN conjunct2, THEN conjunct2, THEN conjunct2,
           THEN conjunct2, THEN conjunct2])
qed

section \<open>The text written by the two converters\<close>

lemma digit_char_mem: "digit_char d \<in> decimal_digits"
proof -
  have "d mod 10 < length ''0123456789''" by simp
  then have "''0123456789'' ! (d mod 10) \<in> set ''0123456789''" by (rule nth_mem)
  then show ?thesis by (simp only: digit_char_def decimal_digits_def)
qed

lemma str_nat_digits: "set (str_nat n) \<subseteq> decimal_digits \<and> str_nat n \<noteq> []"
proof (induction n rule: str_nat.induct)
  case (1 n)
  show ?case
  proof (cases "n < 10")
    case True
    then have "str_nat n = [digit_char n]" by (subst str_nat.simps) simp
    then show ?thesis using digit_char_mem [of n] by simp
  next
    case False
    then have "str_nat n = str_nat (n div 10) @ [digit_char (n mod 10)]"
      by (subst str_nat.simps) simp
    then show ?thesis using "1.IH" [OF False] digit_char_mem [of "n mod 10"] by simp
  qed
qed

lemma length_frac6: "length (frac6 m) = 6"
  unfolding frac6_def by (simp only: length_map list.size)

lemma set_frac6: "set (frac6 m) \<subseteq> decimal_digits"
  unfolding frac6_def set_map by (rule image_subsetI) (rule digit_char_mem)

lemma int_part_shape:
  "(if neg then ''-'' else []) @ str_nat k \<noteq> [] \<and>
   set ((if neg then ''-'' else []) @ str_nat k) \<subseteq> insert CHR ''-'' decimal_digits"
  using str_nat_digits [of k] by auto

lemma fmt6_shape:
  "\<exists>ip fd. fmt6 q = ip @ ''.'' @ fd \<and> length fd = 6 \<and> set fd \<subseteq> decimal_digits \<and>
      ip \<noteq> [] \<and> set ip \<subseteq> insert CHR ''-'' decimal_digits"
proof (intro exI conjI)
  show "fmt6 q = ((if q < 0 then ''-'' else []) @
        str_nat (round_half_even (\<bar>q\<bar> * 1000000) div 1000000)) @ ''.'' @
        frac6 (round_half_even (\<bar>q\<bar> * 1000000) mod 1000000)"
    unfolding fmt6_def Let_def by (simp only: append_assoc)
  show "length (frac6 (round_half_even (\<bar>q\<bar> * 1000000) mod 1000000)) = 6"
    by (rule length_frac6)
  show "set (frac6 (round_half_even (\<bar>q\<bar> * 1000000) mod 1000000)) \<subseteq> decimal_digits"
    by (rule set_frac6)
  show "(if q < 0 then ''-'' else []) @
        str_nat (round_half_even (\<bar>q\<bar> * 1000000) div 1000000) \<noteq> []"
    by (rule int_part_shape [THEN conjunct1])
  show "set ((if q < 0 then ''-'' else []) @
        str_nat (round_half_even (\<bar>q\<bar> * 1000000) div 1000000)) \<subseteq> insert CHR ''-'' decimal_digits"
    by (rule int_part_shape [THEN conjunct2])
qed

lemma str_nat_small: "n < 10 \<Longrightarrow> str_nat n = [digit_char n]"
  by (subst str_nat.simps) simp

lemma round_half_even_example: "round_half_even (25600000 / 51) = 501961"
proof -
  have fl: "\<lfloor>(25600000::rat) / 51\<rfloor> = 501960" by (rule floor_unique) simp_all
  show ?thesis by (simp add: round_half_even_def Let_def fl)
qed

lemma round_half_even_zero: "round_half_even 0 = 0"
  by (simp add: round_half_even_def)

lemma fmt6_examples:
  "fmt6 (byte_val 0) = ''0.000000''"
  "fmt6 (byte_val 128) = ''0.501961''"
  by (simp_all add: fmt6_def byte_val_def round_half_even_example round_half_even_zero
      frac6_def str_nat_small digit_char_def Let_def)

lemma repair_length:
  assumes "repair entries lsize = Inr out" and "entries \<noteq> []"
  shows "length out = lsize ^ 3"
proof -
  from assms(2) have "entries \<noteq> [] \<or> lsize \<noteq> 1" by simp
  from repair_eq [OF this] assms(1) show ?thesis by auto
qed

lemma iter_values_canonical:
  assumes "iter_values n payload order = Inr vals"
    and "order = ''rgb'' \<or> order = ''bgr'' \<or> order = ''rgba''"
    and "r < n" and "g < n" and "b < n"
  shows "texel payload (texel_index order n r g b) = Inr (vals ! (b * (n * n) + g * n + r))"
proof -
  let ?k = "b * (n * n) + g * n + r"
  let ?xs = "map (\<lambda>k. texel payload
        (texel_index order n ((k mod (n * n)) mod n) ((k mod (n * n)) div n) (k div (n * n))))
        [0..<n * (n * n)]"
  from assms(1) have c: "collect ?xs = Inr vals"
    by (simp only: iter_values_flat [OF assms(2)])
  from collect_Inr [OF c] have nth: "\<forall>k < n * (n * n). ?xs ! k = Inr (vals ! k)" by simp
  have kb: "?k < n * (n * n)" using assms(3-5) by (rule canonical_bound)
  from nth kb have "?xs ! ?k = Inr (vals ! ?k)" by blast
  then show ?thesis
    using kb by (simp add: canonical_decompose [OF assms(3,4)])
qed

lemma convert_file_bound:
  assumes "convert_file name data = Inr (lines, sz, src)"
  shows "\<exists>order payload vals.
      (read_ms_lut data = Inr (sz, order, payload) \<and> src = ''ms-lut'' \<or>
       (\<exists>e. read_ms_lut data = Inl e) \<and> read_raw_rgba data = Inr (sz, order, payload) \<and>
         src = ''rgba'') \<and>
      (order = ''rgb'' \<or> order = ''bgr'' \<or> order = ''rgba'') \<and>
      iter_values sz payload order = Inr vals \<and>
      lines = cube_header name sz @ map data_line vals"
proof (cases "read_ms_lut data")
  case (Inr t)
  obtain sz' ord p where t: "t = (sz', ord, p)" by (cases t)
  note m = Inr [unfolded t]
  from read_ms_lut_Inr [OF m] have o: "ord = ''rgb'' \<or> ord = ''bgr'' \<or> ord = ''rgba''" by blast
  have c: "convert_file name data =
      (case iter_values sz' p ord of
         Inl e \<Rightarrow> Inl e
       | Inr vals \<Rightarrow> Inr (cube_header name sz' @ map data_line vals, sz', ''ms-lut''))"
    unfolding convert_file_def cube_header_def by (simp add: m)
  show ?thesis
  proof (cases "iter_values sz' p ord")
    case (Inl e)
    with c assms show ?thesis by simp
  next
    case (Inr vals)
    with c assms have "sz = sz'" "src = ''ms-lut''" "lines = cube_header name sz' @ map data_line vals"
      by simp_all
    with m o Inr show ?thesis by blast
  qed
next
  case (Inl e)
  note m = this
  show ?thesis
  proof (cases "read_raw_rgba data")
    case (Inl e')
    from convert_file_fail [OF m Inl, of name] assms show ?thesis by simp
  next
    case (Inr t)
    obtain sz' ord p where t: "t = (sz', ord, p)" by (cases t)
    note rr = Inr [unfolded t]
    from read_raw_rgba_Inr [OF rr] have o: "ord = ''rgb'' \<or> ord = ''bgr'' \<or> ord = ''rgba''" by blast
    have c: "convert_file name data =
        (case iter_values sz' p ord of
           Inl e \<Rightarrow> Inl e
         | Inr vals \<Rightarrow> Inr (cube_header name sz' @ map data_line vals, sz', ''rgba''))"
      unfolding convert_file_def cube_header_def by (simp add: m rr)
    show ?thesis
    proof (cases "iter_values sz' p ord")
      case (Inl e'')
      with c assms show ?thesis by simp
    next
      case (Inr vals)
      with c assms have "sz = sz'" "src = ''rgba''" "lines = cube_header name sz' @ map data_line vals"
        by simp_all
      with m rr o Inr show ?thesis by blast
    qed
  qed
qed

lemma written_bound:
  assumes "(if entries = [] \<or> (of_nat (length entries) :: rat) < of_nat (lsize ^ 3) * (9 / 10)
            then Failed
            else (case repair entries lsize of
                    Inl e \<Rightarrow> Failed
                  | Inr entries' \<Rightarrow> Written (write_cube_file entries' lsize stem))) = Written lines"
  shows "\<exists>out. repair entries lsize = Inr out \<and> length out = lsize ^ 3 \<and>
           lines = write_cube_file out lsize stem"
proof (cases "entries = [] \<or> (of_nat (length entries) :: rat) < of_nat (lsize ^ 3) * (9 / 10)")
  case True
  with assms show ?thesis by (simp only: if_True outcome.distinct)
next
  case False
  then have ne: "entries \<noteq> []" by simp
  from False assms have r: "(case repair entries lsize of
                    Inl e \<Rightarrow> Failed
                  | Inr entries' \<Rightarrow> Written (write_cube_file entries' lsize stem)) = Written lines"
    by (simp only: if_False)
  show ?thesis
  proof (cases "repair entries lsize")
    case (Inl e)
    with r show ?thesis by simp
  next
    case (Inr es)
    with r have "lines = write_cube_file es lsize stem" by simp
    moreover have "length es = lsize ^ 3" using Inr ne by (rule repair_length)
    ultimately show ?thesis using Inr by blast
  qed
qed

lemma convert_bin_to_cube_bound:
  assumes "convert_bin_to_cube stem buf = Written lines"
  shows "\<exists>lsize entries out.
      (parse_ms_lut_header buf = Inr None \<and> lsize = raw_lut_size (length buf) \<and>
         entries = extract_byte_lut buf lsize (raw_channels (length buf)) \<or>
       (\<exists>h. parse_ms_lut_header buf = Inr (Some h) \<and> lsize = lut_size h \<and>
         entries = extract_lut_data buf h)) \<and>
      repair entries lsize = Inr out \<and> length out = lsize ^ 3 \<and>
      lines = write_cube_file out lsize stem"
proof (cases "isascii (slice buf 0 20) \<and>
         (let text_start = decode_ascii_ignore (slice buf 0 500)
          in contains ''LUT_3D_SIZE'' text_start \<or> contains ''TITLE'' text_start)")
  case True
  then have "convert_bin_to_cube stem buf = Copied buf"
    unfolding convert_bin_to_cube_def by (simp only: if_True simp_thms)
  with assms show ?thesis by simp
next
  case False
  note nc = this
  show ?thesis
  proof (cases "parse_ms_lut_header buf")
    case (Inl e)
    then have "convert_bin_to_cube stem buf = Failed"
      unfolding convert_bin_to_cube_def using nc by (simp only: if_False sum.case)
    with assms show ?thesis by simp
  next
    case (Inr hdr)
    show ?thesis
    proof (cases hdr)
      case None
      have eq: "convert_bin_to_cube stem buf =
        (if extract_byte_lut buf (raw_lut_size (length buf)) (raw_channels (length buf)) = [] \<or>
            (of_nat (length (extract_byte_lut buf (raw_lut_size (length buf)) (raw_channels (length buf)))) :: rat)
              < of_nat (raw_lut_size (length buf) ^ 3) * (9 / 10)
         then Failed
         else (case repair (extract_byte_lut buf (raw_lut_size (length buf)) (raw_channels (length buf)))
                      (raw_lut_size (length buf)) of
                 Inl e \<Rightarrow> Failed
               | Inr entries' \<Rightarrow> Written (write_cube_file entries' (raw_lut_size (length buf)) stem)))"
        unfolding convert_bin_to_cube_def using nc
        by (simp only: if_False sum.case Inr None option.case Let_def prod.case)
      from written_bound [OF assms [unfolded eq]] obtain out where
        "repair (extract_byte_lut buf (raw_lut_size (length buf)) (raw_channels (length buf)))
           (raw_lut_size (length buf)) = Inr out"
        "length out = raw_lut_size (length buf) ^ 3"
        "lines = write_cube_file out (raw_lut_size (length buf)) stem" by blast
      moreover have "parse_ms_lut_header buf = Inr None" using Inr None by simp
      ultimately show ?thesis by blast
    next
      case (Some h)
      have eq: "convert_bin_to_cube stem buf =
        (if extract_lut_data buf h = [] \<or>
            (of_nat (length (extract_lut_data buf h)) :: rat) < of_nat (lut_size h ^ 3) * (9 / 10)
         then Failed
         else (case repair (extract_lut_data buf h) (lut_size h) of
                 Inl e \<Rightarrow> Failed
               | Inr entries' \<Rightarrow> Written (write_cube_file entries' (lut_size h) stem)))"
        unfolding convert_bin_to_cube_def using nc
        by (simp only: if_False sum.case Inr Some option.case Let_def prod.case)
      from written_bound [OF assms [unfolded eq]] obtain out where
        "repair (extract_lut_data buf h) (lut_size h) = Inr out"
        "length out = lut_size h ^ 3"
        "lines = write_cube_file out (lut_size h) stem" by blast
      moreover have "parse_ms_lut_header buf = Inr (Some h)" using Inr Some by simp
      ultimately show ?thesis by blast
    qed
  qed
qed

lemma header_then_data:
  "length hdr = h \<Longrightarrow> k < length vals \<Longrightarrow> (hdr @ map data_line vals) ! (h + k) = data_line (vals ! k)"
  by (simp add: nth_append)

lemma raw_buffer_16:
  "convert_bin_to_cube ''lut'' (0xFF # replicate 16383 0) =
     Written (write_cube_file (extract_byte_lut (0xFF # replicate 16383 0) 16 4) 16 ''lut'')"
  "length (extract_byte_lut (0xFF # replicate 16383 0) 16 4) = 4096"
proof -
  let ?buf = "0xFF # replicate 16383 (0::byte)"
  let ?es = "extract_byte_lut ?buf 16 4"
  have ch: "raw_channels (length ?buf) = 4" by (simp add: raw_channels_def)
  have sz: "raw_lut_size (length ?buf) = 16" by (simp add: raw_lut_size_def)
  show len: "length ?es = 4096"
    by (simp add: extract_byte_lut_def extract_loop_length)
  have nm: "\<not> startswith ?buf MS_MAGIC" by (simp add: startswith_def MS_MAGIC_def)
  have na: "\<not> isascii (slice ?buf 0 20)" by (simp add: isascii_def slice_def)
  have p: "parse_ms_lut_header ?buf = Inr None"
    using nm by (simp add: parse_ms_lut_header_def)
  have ne: "?es \<noteq> []" using len by auto
  have rp: "repair ?es 16 = Inr ?es" by (simp add: repair_def len)
  have "convert_bin_to_cube ''lut'' ?buf =
      (if ?es = [] \<or> (of_nat (length ?es) :: rat) < of_nat (16 ^ 3) * (9 / 10)
       then Failed
       else (case repair ?es 16 of
               Inl e \<Rightarrow> Failed
             | Inr entries' \<Rightarrow> Written (write_cube_file entries' 16 ''lut'')))"
    unfolding convert_bin_to_cube_def using na
    by (simp only: p ch sz Let_def sum.case option.case prod.case if_False simp_thms)
  then show "convert_bin_to_cube ''lut'' ?buf = Written (write_cube_file ?es 16 ''lut'')"
    by (simp add: len rp ne)
qed

lemma raw_buffer_4:
  "\<exists>lines. convert_file ''a.bin'' (replicate 4 0) = Inr (lines, 1, ''rgba'')"
proof -
  have m: "read_ms_lut (replicate 4 0) = Inl MissingHeader" by (simp add: read_ms_lut_def)
  have "round_cbrt 1 = 1" using round_cbrt_cube [of 1] by simp
  then have r: "read_raw_rgba (replicate 4 0) = Inr (1, ''rgba'', replicate 4 0)"
    by (simp add: read_raw_rgba_def)
  from convert_file_raw [OF m r, of "''a.bin''"] show ?thesis by blast
qed

lemma raw_buffer_16_facts:
  "parse_ms_lut_header (0xFF # replicate 16383 0) = Inr None"
  "raw_lut_size (length (0xFF # replicate 16383 (0::byte))) = 16"
  "raw_channels (length (0xFF # replicate 16383 (0::byte))) = 4"
  "repair (extract_byte_lut (0xFF # replicate 16383 0) 16 4) 16 =
     Inr (extract_byte_lut (0xFF # replicate 16383 0) 16 4)"
  "extract_byte_lut (0xFF # replicate 16383 0) 16 4 ! 0 = (byte_val 0xFF, byte_val 0, byte_val 0)"
proof -
  let ?buf = "0xFF # replicate 16383 (0::byte)"
  have nm: "\<not> startswith ?buf MS_MAGIC" by (simp add: startswith_def MS_MAGIC_def)
  show "parse_ms_lut_header ?buf = Inr None"
    using nm by (simp add: parse_ms_lut_header_def)
  show "raw_lut_size (length ?buf) = 16" by (simp add: raw_lut_size_def)
  show "raw_channels (length ?buf) = 4" by (simp add: raw_channels_def)
  show "repair (extract_byte_lut ?buf 16 4) 16 = Inr (extract_byte_lut ?buf 16 4)"
    by (simp add: repair_def raw_buffer_16(2))
  show "extract_byte_lut ?buf 16 4 ! 0 = (byte_val 0xFF, byte_val 0, byte_val 0)"
    unfolding extract_byte_lut_def by (subst extract_loop.simps) (simp add: Let_def)
qed

lemma raw_buffer_4_facts:
  "read_ms_lut (replicate 4 0) = Inl MissingHeader"
  "read_raw_rgba (replicate 4 0) = Inr (1, ''rgba'', replicate 4 0)"
proof -
  show "read_ms_lut (replicate 4 0) = Inl MissingHeader" by (simp add: read_ms_lut_def)
  have "round_cbrt 1 = 1" using round_cbrt_cube [of 1] by simp
  then show "read_raw_rgba (replicate 4 0) = Inr (1, ''rgba'', replicate 4 0)"
    by (simp add: read_raw_rgba_def)
qed

lemma round_half_even_million: "round_half_even 1000000 = 1000000"
  by (simp add: round_half_even_def Let_def)

lemma fmt6_full: "fmt6 (byte_val 0xFF) = ''1.000000''"
  by (simp add: fmt6_def byte_val_def round_half_even_million frac6_def str_nat_small
      digit_char_def Let_def)

text \<open>
  C5 (as amended). \<open>convert_file\<close> writes exactly the four header lines
  \<^verbatim>\<open>TITLE "<name>"\<close>, \<^verbatim>\<open>LUT_3D_SIZE <size>\<close>, \<^verbatim>\<open>DOMAIN_MIN 0 0 0\<close>, \<^verbatim>\<open>DOMAIN_MAX 1 1 1\<close>,
  followed immediately by the \<open>size\<^sup>3\<close> triples that \<open>iter_values\<close> yields for the payload
  the reader returned, in canonical order and nothing else: the line at position
  \<open>4 + (b N\<^sup>2 + g N + r)\<close> is the texel of \<open>(r, g, b)\<close>. \<open>convert_bin_to_cube\<close> writes,
  through \<open>write_cube_file\<close>, \<^verbatim>\<open>TITLE "<stem>"\<close>, \<^verbatim>\<open>LUT_3D_SIZE <size>\<close>,
  \<^verbatim>\<open>DOMAIN_MIN 0.0 0.0 0.0\<close>, \<^verbatim>\<open>DOMAIN_MAX 1.0 1.0 1.0\<close> and an empty line, followed by the
  \<open>size\<^sup>3\<close> repaired entries in their order (line \<open>5 + k\<close> is entry \<open>k\<close>);
  \<open>write_cube_file\<close> writes any volume it is given in that layout, entry by entry. In
  both files a data line is three values separated by single spaces, each value an
  integer part, a point and exactly six decimal digits.
\<close>

theorem cube_text_in_order:
  "(\<forall>lines sz src. convert_file name data = Inr (lines, sz, src) \<longrightarrow>
      (\<exists>order payload vals.
         (read_ms_lut data = Inr (sz, order, payload) \<and> src = ''ms-lut'' \<or>
          (\<exists>e. read_ms_lut data = Inl e) \<and> read_raw_rgba data = Inr (sz, order, payload) \<and>
            src = ''rgba'') \<and>
         iter_values sz payload order = Inr vals \<and> length vals = sz ^ 3 \<and>
         lines = [''TITLE '' @ dquote @ name @ dquote, ''LUT_3D_SIZE '' @ str_nat sz,
                  ''DOMAIN_MIN 0 0 0'', ''DOMAIN_MAX 1 1 1''] @ map data_line vals \<and>
         (\<forall>r g b. r < sz \<and> g < sz \<and> b < sz \<longrightarrow>
            (let i = (if order = ''rgb'' then 3 * (r + g * sz + b * sz * sz)
                      else if order = ''bgr'' then 3 * (b + g * sz + r * sz * sz)
                      else 4 * (r + g * sz + b * sz * sz))
             in lines ! (4 + (b * sz * sz + g * sz + r)) =
                  data_line (byte_val (payload ! i), byte_val (payload ! (i + 1)),
                             byte_val (payload ! (i + 2))))))) \<and>
   (\<forall>lines. convert_bin_to_cube stem buf = Written lines \<longrightarrow>
      (\<exists>lsize entries out.
         (parse_ms_lut_header buf = Inr None \<and> lsize = raw_lut_size (length buf) \<and>
            entries = extract_byte_lut buf lsize (raw_channels (length buf)) \<or>
          (\<exists>h. parse_ms_lut_header buf = Inr (Some h) \<and> lsize = lut_size h \<and>
            entries = extract_lut_data buf h)) \<and>
         repair entries lsize = Inr out \<and> length out = lsize ^ 3 \<and>
         lines = [''TITLE '' @ dquote @ stem @ dquote, ''LUT_3D_SIZE '' @ str_nat lsize,
                  ''DOMAIN_MIN 0.0 0.0 0.0'', ''DOMAIN_MAX 1.0 1.0 1.0'', []]
                 @ map data_line out \<and>
         (\<forall>k. k < lsize ^ 3 \<longrightarrow> lines ! (5 + k) = data_line (out ! k)))) \<and>
   write_cube_file vol vsize title =
     [''TITLE '' @ dquote @ title @ dquote, ''LUT_3D_SIZE '' @ str_nat vsize,
      ''DOMAIN_MIN 0.0 0.0 0.0'', ''DOMAIN_MAX 1.0 1.0 1.0'', []] @ map data_line vol \<and>
   data_line (cr, cg, cb) = fmt6 cr @ '' '' @ fmt6 cg @ '' '' @ fmt6 cb \<and>
   (\<exists>ip fd. fmt6 q = ip @ ''.'' @ fd \<and> length fd = 6 \<and> set fd \<subseteq> decimal_digits \<and>
      ip \<noteq> [] \<and> set ip \<subseteq> insert CHR ''-'' decimal_digits)"
proof (intro conjI)
  show "\<forall>lines sz src. convert_file name data = Inr (lines, sz, src) \<longrightarrow>
      (\<exists>order payload vals.
         (read_ms_lut data = Inr (sz, order, payload) \<and> src = ''ms-lut'' \<or>
          (\<exists>e. read_ms_lut data = Inl e) \<and> read_raw_rgba data = Inr (sz, order, payload) \<and>
            src = ''rgba'') \<and>
         iter_values sz payload order = Inr vals \<and> length vals = sz ^ 3 \<and>
         lines = [''TITLE '' @ dquote @ name @ dquote, ''LUT_3D_SIZE '' @ str_nat sz,
                  ''DOMAIN_MIN 0 0 0'', ''DOMAIN_MAX 1 1 1''] @ map data_line vals \<and>
         (\<forall>r g b. r < sz \<and> g < sz \<and> b < sz \<longrightarrow>
            (let i = (if order = ''rgb'' then 3 * (r + g * sz + b * sz * sz)
                      else if order = ''bgr'' then 3 * (b + g * sz + r * sz * sz)
                      else 4 * (r + g * sz + b * sz * sz))
             in lines ! (4 + (b * sz * sz + g * sz + r)) =
                  data_line (byte_val (payload ! i), byte_val (payload ! (i + 1)),
                             byte_val (payload ! (i + 2))))))"
  proof (intro allI impI)
    fix lines sz src assume cf: "convert_file name data = Inr (lines, sz, src)"
    from convert_file_bound [OF cf] obtain order payload vals where
      rd: "read_ms_lut data = Inr (sz, order, payload) \<and> src = ''ms-lut'' \<or>
          (\<exists>e. read_ms_lut data = Inl e) \<and> read_raw_rgba data = Inr (sz, order, payload) \<and>
            src = ''rgba''"
      and o: "order = ''rgb'' \<or> order = ''bgr'' \<or> order = ''rgba''"
      and iv: "iter_values sz payload order = Inr vals"
      and ln: "lines = cube_header name sz @ map data_line vals" by blast
    have len: "length vals = sz ^ 3" using iv o by (rule iter_values_length)
    have pos: "let i = (if order = ''rgb'' then 3 * (r + g * sz + b * sz * sz)
                      else if order = ''bgr'' then 3 * (b + g * sz + r * sz * sz)
                      else 4 * (r + g * sz + b * sz * sz))
             in lines ! (4 + (b * sz * sz + g * sz + r)) =
                  data_line (byte_val (payload ! i), byte_val (payload ! (i + 1)),
                             byte_val (payload ! (i + 2)))"
      if rgb: "r < sz \<and> g < sz \<and> b < sz" for r g b
    proof -
      from rgb have r: "r < sz" and g: "g < sz" and b: "b < sz" by simp_all
      let ?k = "b * (sz * sz) + g * sz + r"
      let ?i = "texel_index order sz r g b"
      have kb: "?k < length vals"
        using canonical_bound [OF r g b] len by (simp add: power3_eq_cube)
      from iter_values_canonical [OF iv o r g b]
      have v: "vals ! ?k = (byte_val (payload ! ?i), byte_val (payload ! (?i + 1)),
                            byte_val (payload ! (?i + 2)))"
        by (auto simp: texel_def split: if_splits)
      have hl: "length (cube_header name sz) = 4" by (simp add: cube_header_def)
      have "lines ! (4 + ?k) = data_line (vals ! ?k)"
        unfolding ln using hl kb by (rule header_then_data)
      then have l: "lines ! (4 + ?k) =
          data_line (byte_val (payload ! ?i), byte_val (payload ! (?i + 1)), byte_val (payload ! (?i + 2)))"
        by (simp only: v)
      have ieq: "?i = (if order = ''rgb'' then 3 * (r + g * sz + b * sz * sz)
                   else if order = ''bgr'' then 3 * (b + g * sz + r * sz * sz)
                   else 4 * (r + g * sz + b * sz * sz))"
        by (simp add: texel_index_def algebra_simps)
      have keq: "b * sz * sz + g * sz + r = ?k" by (simp add: algebra_simps)
      show ?thesis unfolding Let_def ieq [symmetric] keq by (rule l)
    qed
    show "\<exists>order payload vals.
         (read_ms_lut data = Inr (sz, order, payload) \<and> src = ''ms-lut'' \<or>
          (\<exists>e. read_ms_lut data = Inl e) \<and> read_raw_rgba data = Inr (sz, order, payload) \<and>
            src = ''rgba'') \<and>
         iter_values sz payload order = Inr vals \<and> length vals = sz ^ 3 \<and>
         lines = [''TITLE '' @ dquote @ name @ dquote, ''LUT_3D_SIZE '' @ str_nat sz,
                  ''DOMAIN_MIN 0 0 0'', ''DOMAIN_MAX 1 1 1''] @ map data_line vals \<and>
         (\<forall>r g b. r < sz \<and> g < sz \<and> b < sz \<longrightarrow>
            (let i = (if order = ''rgb'' then 3 * (r + g * sz + b * sz * sz)
                      else if order = ''bgr'' then 3 * (b + g * sz + r * sz * sz)
                      else 4 * (r + g * sz + b * sz * sz))
             in lines ! (4 + (b * sz * sz + g * sz + r)) =
                  data_line (byte_val (payload ! i), byte_val (payload ! (i + 1)),
                             byte_val (payload ! (i + 2)))))"
    proof (intro exI conjI allI impI)
      show "read_ms_lut data = Inr (sz, order, payload) \<and> src = ''ms-lut'' \<or>
          (\<exists>e. read_ms_lut data = Inl e) \<and> read_raw_rgba data = Inr (sz, order, payload) \<and>
            src = ''rgba''" by (rule rd)
      show "iter_values sz payload order = Inr vals" by (rule iv)
      show "length vals = sz ^ 3" by (rule len)
      show "lines = [''TITLE '' @ dquote @ name @ dquote, ''LUT_3D_SIZE '' @ str_nat sz,
                  ''DOMAIN_MIN 0 0 0'', ''DOMAIN_MAX 1 1 1''] @ map data_line vals"
        using ln unfolding cube_header_def .
    next
      fix r g b assume "r < sz \<and> g < sz \<and> b < sz"
      then show "let i = (if order = ''rgb'' then 3 * (r + g * sz + b * sz * sz)
                      else if order = ''bgr'' then 3 * (b + g * sz + r * sz * sz)
                      else 4 * (r + g * sz + b * sz * sz))
             in lines ! (4 + (b * sz * sz + g * sz + r)) =
                  data_line (byte_val (payload ! i), byte_val (payload ! (i + 1)),
                             byte_val (payload ! (i + 2)))" by (rule pos)
    qed
  qed
next
  show "\<forall>lines. convert_bin_to_cube stem buf = Written lines \<longrightarrow>
      (\<exists>lsize entries out.
         (parse_ms_lut_header buf = Inr None \<and> lsize = raw_lut_size (length buf) \<and>
            entries = extract_byte_lut buf lsize (raw_channels (length buf)) \<or>
          (\<exists>h. parse_ms_lut_header buf = Inr (Some h) \<and> lsize = lut_size h \<and>
            entries = extract_lut_data buf h)) \<and>
         repair entries lsize = Inr out \<and> length out = lsize ^ 3 \<and>
         lines = [''TITLE '' @ dquote @ stem @ dquote, ''LUT_3D_SIZE '' @ str_nat lsize,
                  ''DOMAIN_MIN 0.0 0.0 0.0'', ''DOMAIN_MAX 1.0 1.0 1.0'', []]
                 @ map data_line out \<and>
         (\<forall>k. k < lsize ^ 3 \<longrightarrow> lines ! (5 + k) = data_line (out ! k)))"
  proof (intro allI impI)
    fix lines assume w: "convert_bin_to_cube stem buf = Written lines"
    from convert_bin_to_cube_bound [OF w] obtain lsize entries out where
      src: "parse_ms_lut_header buf = Inr None \<and> lsize = raw_lut_size (length buf) \<and>
            entries = extract_byte_lut buf lsize (raw_channels (length buf)) \<or>
          (\<exists>h. parse_ms_lut_header buf = Inr (Some h) \<and> lsize = lut_size h \<and>
            entries = extract_lut_data buf h)"
      and rp: "repair entries lsize = Inr out" and len: "length out = lsize ^ 3"
      and ln: "lines = write_cube_file out lsize stem" by blast
    let ?hdr = "[''TITLE '' @ dquote @ stem @ dquote, ''LUT_3D_SIZE '' @ str_nat lsize,
                  ''DOMAIN_MIN 0.0 0.0 0.0'', ''DOMAIN_MAX 1.0 1.0 1.0'', []]"
    have ln': "lines = ?hdr @ map data_line out" using ln unfolding write_cube_file_def .
    have hl: "length ?hdr = 5" by simp
    have nth: "lines ! (5 + k) = data_line (out ! k)" if "k < lsize ^ 3" for k
    proof -
      from that len have "k < length out" by simp
      with hl show ?thesis unfolding ln' by (rule header_then_data)
    qed
    show "\<exists>lsize entries out.
         (parse_ms_lut_header buf = Inr None \<and> lsize = raw_lut_size (length buf) \<and>
            entries = extract_byte_lut buf lsize (raw_channels (length buf)) \<or>
          (\<exists>h. parse_ms_lut_header buf = Inr (Some h) \<and> lsize = lut_size h \<and>
            entries = extract_lut_data buf h)) \<and>
         repair entries lsize = Inr out \<and> length out = lsize ^ 3 \<and>
         lines = [''TITLE '' @ dquote @ stem @ dquote, ''LUT_3D_SIZE '' @ str_nat lsize,
                  ''DOMAIN_MIN 0.0 0.0 0.0'', ''DOMAIN_MAX 1.0 1.0 1.0'', []]
                 @ map data_line out \<and>
         (\<forall>k. k < lsize ^ 3 \<longrightarrow> lines ! (5 + k) = data_line (out ! k))"
      using src rp len ln' nth by blast
  qed
next
  show "write_cube_file vol vsize title =
     [''TITLE '' @ dquote @ title @ dquote, ''LUT_3D_SIZE '' @ str_nat vsize,
      ''DOMAIN_MIN 0.0 0.0 0.0'', ''DOMAIN_MAX 1.0 1.0 1.0'', []] @ map data_line vol"
    by (simp only: write_cube_file_def)
next
  show "data_line (cr, cg, cb) = fmt6 cr @ '' '' @ fmt6 cg @ '' '' @ fmt6 cb"
    by (simp add: data_line_def)
next
  show "\<exists>ip fd. fmt6 q = ip @ ''.'' @ fd \<and> length fd = 6 \<and> set fd \<subseteq> decimal_digits \<and>
      ip \<noteq> [] \<and> set ip \<subseteq> insert CHR ''-'' decimal_digits"
    by (rule fmt6_shape)
qed

theorem cube_text_in_order_witness:
  "(\<exists>lines. convert_file ''a.bin'' (replicate 4 0) = Inr (lines, 1, ''rgba'') \<and>
      length lines = 5 \<and> lines ! 4 = ''0.000000 0.000000 0.000000'') \<and>
   (\<exists>lines out. convert_bin_to_cube ''lut'' (0xFF # replicate 16383 0) = Written lines \<and>
      repair (extract_byte_lut (0xFF # replicate 16383 0) 16 4) 16 = Inr out \<and>
      length out = 16 ^ 3 \<and> lines ! 4 = [] \<and>
      lines ! 5 = ''1.000000 0.000000 0.000000'')"
proof -
  let ?buf = "0xFF # replicate 16383 (0::byte)"
  let ?es = "extract_byte_lut ?buf 16 4"
  note t = cube_text_in_order [of "''a.bin''" "replicate 4 0" "''lut''" ?buf "[]" 0 "[]" 0 0 0 0]
  from raw_buffer_4 obtain lines where
    cf: "convert_file ''a.bin'' (replicate 4 0) = Inr (lines, 1, ''rgba'')" ..
  from t [THEN conjunct1, THEN spec, THEN spec, THEN spec, THEN mp, OF cf]
  obtain order payload vals where
    rd: "read_ms_lut (replicate 4 0) = Inr (1, order, payload) \<and> ''rgba'' = ''ms-lut'' \<or>
          (\<exists>e. read_ms_lut (replicate 4 0) = Inl e) \<and>
          read_raw_rgba (replicate 4 0) = Inr (1, order, payload) \<and> ''rgba'' = ''rgba''"
    and len: "length vals = 1 ^ 3"
    and ln: "lines = [''TITLE '' @ dquote @ ''a.bin'' @ dquote, ''LUT_3D_SIZE '' @ str_nat 1,
                  ''DOMAIN_MIN 0 0 0'', ''DOMAIN_MAX 1 1 1''] @ map data_line vals"
    and pos: "\<forall>r g b. r < 1 \<and> g < 1 \<and> b < 1 \<longrightarrow>
            (let i = (if order = ''rgb'' then 3 * (r + g * 1 + b * 1 * 1)
                      else if order = ''bgr'' then 3 * (b + g * 1 + r * 1 * 1)
                      else 4 * (r + g * 1 + b * 1 * 1))
             in lines ! (4 + (b * 1 * 1 + g * 1 + r)) =
                  data_line (byte_val (payload ! i), byte_val (payload ! (i + 1)),
                             byte_val (payload ! (i + 2))))"
    by blast
  from rd have op: "order = ''rgba''" "payload = replicate 4 0"
    by (simp_all add: raw_buffer_4_facts)
  from pos [THEN spec, THEN spec, THEN spec, of 0 0 0]
  have "lines ! 4 = data_line (byte_val 0, byte_val 0, byte_val 0)"
    by (simp add: op Let_def)
  then have l4: "lines ! 4 = ''0.000000 0.000000 0.000000''"
    by (simp add: data_line_def fmt6_examples(1))
  have ll: "length lines = 5" using ln len by simp
  have a: "\<exists>lines. convert_file ''a.bin'' (replicate 4 0) = Inr (lines, 1, ''rgba'') \<and>
      length lines = 5 \<and> lines ! 4 = ''0.000000 0.000000 0.000000''"
    using cf ll l4 by blast
  from t [THEN conjunct2, THEN conjunct1, THEN spec, THEN mp, OF raw_buffer_16(1)]
  obtain lsize entries out where
    src: "parse_ms_lut_header ?buf = Inr None \<and> lsize = raw_lut_size (length ?buf) \<and>
            entries = extract_byte_lut ?buf lsize (raw_channels (length ?buf)) \<or>
          (\<exists>h. parse_ms_lut_header ?buf = Inr (Some h) \<and> lsize = lut_size h \<and>
            entries = extract_lut_data ?buf h)"
    and rp: "repair entries lsize = Inr out" and lo: "length out = lsize ^ 3"
    and wl: "write_cube_file ?es 16 ''lut'' =
        [''TITLE '' @ dquote @ ''lut'' @ dquote, ''LUT_3D_SIZE '' @ str_nat lsize,
         ''DOMAIN_MIN 0.0 0.0 0.0'', ''DOMAIN_MAX 1.0 1.0 1.0'', []] @ map data_line out"
    and nth: "\<forall>k. k < lsize ^ 3 \<longrightarrow> write_cube_file ?es 16 ''lut'' ! (5 + k) = data_line (out ! k)"
    by blast
  from src have "lsize = raw_lut_size (length ?buf) \<and>
      entries = extract_byte_lut ?buf lsize (raw_channels (length ?buf))"
    by (simp only: raw_buffer_16_facts(1) sum.inject option.distinct simp_thms ex_simps)
  then have ls: "lsize = 16" and en: "entries = ?es"
    by (simp_all only: raw_buffer_16_facts(2,3))
  from rp have o: "out = ?es" unfolding ls en by (simp only: raw_buffer_16_facts(4) sum.inject)
  from nth [THEN spec, of 0] have "write_cube_file ?es 16 ''lut'' ! 5 = data_line (out ! 0)"
    unfolding ls by simp
  then have l5: "write_cube_file ?es 16 ''lut'' ! 5 = ''1.000000 0.000000 0.000000''"
    unfolding o raw_buffer_16_facts(5)
    by (simp add: data_line_def fmt6_full fmt6_examples(1))
  have l4': "write_cube_file ?es 16 ''lut'' ! 4 = []" unfolding wl by simp
  have b: "\<exists>lines out. convert_bin_to_cube ''lut'' ?buf = Written lines \<and>
      repair ?es 16 = Inr out \<and> length out = 16 ^ 3 \<and> lines ! 4 = [] \<and>
      lines ! 5 = ''1.000000 0.000000 0.000000''"
    using raw_buffer_16(1) rp [unfolded ls en] lo [unfolded ls] l4' l5 by blast
  from a b show ?thesis by (rule conjI)
qed

text \<open>
  The claim as stated fails for \<open>write_cube_file\<close>: for a raw buffer of 16384 bytes the
  third line is \<^verbatim>\<open>DOMAIN_MIN 0.0 0.0 0.0\<close>, the fifth line is empty, and the file has
  \<open>5 + 16\<^sup>3\<close> lines.
\<close>

theorem cube_text_layout_counterexample:
  "(\<exists>lines. convert_bin_to_cube ''lut'' (0xFF # replicate 16383 0) = Written lines \<and>
      lines ! 2 = ''DOMAIN_MIN 0.0 0.0 0.0'' \<and> lines ! 2 \<noteq> ''DOMAIN_MIN 0 0 0'' \<and>
      lines ! 3 = ''DOMAIN_MAX 1.0 1.0 1.0'' \<and> lines ! 4 = [] \<and>
      length lines = 5 + 16 ^ 3)"
proof -
  let ?es = "extract_byte_lut (0xFF # replicate 16383 0) 16 4"
  let ?lines = "write_cube_file ?es 16 ''lut''"
  have "?lines ! 2 = ''DOMAIN_MIN 0.0 0.0 0.0''" "?lines ! 2 \<noteq> ''DOMAIN_MIN 0 0 0''"
    "?lines ! 3 = ''DOMAIN_MAX 1.0 1.0 1.0''" "?lines ! 4 = []"
    by (simp_all add: write_cube_file_def)
  moreover have "length ?lines = 5 + 16 ^ 3"
    by (simp add: write_cube_file_def raw_buffer_16(2))
  ultimately show ?thesis using raw_buffer_16(1) by blast
qed

end
